theory Spec2Isabelle
  imports Main "HOL-Library.Sublist" "HOL-Library.Char_ord" "HOL-Library.List_Lexorder"
begin

section \<open>Data model (main.go, lines 125-129)\<close>

text \<open>
  Go strings are byte sequences; \<open>string\<close> is a list of 8-bit characters.
  \<^verbatim>\<open>type kv struct{ key, value string }\<close> and
  \<^verbatim>\<open>type sectionLine struct { profile string; setting kv }\<close>.
\<close>

record kv =
  key :: string
  val :: string

record sectionLine =
  profile :: string
  setting :: kv

definition defaultProfileName :: string where
  "defaultProfileName = ''default''"

definition newline :: char where
  "newline = CHR 0x0A"

section \<open>The merger: fillConfig (main.go, lines 269-297)\<close>

text \<open>
  A run-time panic of the Go program (index out of range) is a value of the model.
\<close>

datatype panic = IndexOutOfRange

text \<open>
  The inner loop \<^verbatim>\<open>for i := 0; i < len(templateCache); i++\<close> for one profile.  A record of
  another profile is stepped over; a matching record is appended to \<open>settings\<close>, its key is
  pointed at the new last index, the record is cut out of the cache and the index is kept
  (\<^verbatim>\<open>i--\<close> followed by the loop's \<^verbatim>\<open>i++\<close>).
\<close>

function scanProfile ::
  "string \<Rightarrow> nat \<Rightarrow> sectionLine list \<Rightarrow> kv list \<Rightarrow> (string \<rightharpoonup> nat)
     \<Rightarrow> sectionLine list \<times> kv list \<times> (string \<rightharpoonup> nat)" where
  "scanProfile p i templateCache settings settingIdx =
     (if i < length templateCache then
        (if profile (templateCache ! i) \<noteq> p
         then scanProfile p (i + 1) templateCache settings settingIdx
         else
           (let settings' = settings @ [setting (templateCache ! i)];
                settingIdx' = settingIdx(key (setting (templateCache ! i)) \<mapsto> length settings' - 1);
                templateCache' = take i templateCache @ drop (i + 1) templateCache
            in scanProfile p i templateCache' settings' settingIdx'))
      else (templateCache, settings, settingIdx))"
  by pat_completeness auto
termination
  by (relation "measure (\<lambda>(p, i, c, s, m). length c - i)") auto

declare scanProfile.simps [simp del]

text \<open>The outer loop over \<^verbatim>\<open>append([]string{defaultProfileName}, selected...)\<close>.\<close>

fun applyProfiles ::
  "string list \<Rightarrow> sectionLine list \<Rightarrow> kv list \<Rightarrow> (string \<rightharpoonup> nat)
     \<Rightarrow> sectionLine list \<times> kv list \<times> (string \<rightharpoonup> nat)" where
  "applyProfiles [] templateCache settings settingIdx = (templateCache, settings, settingIdx)"
| "applyProfiles (p # ps) templateCache settings settingIdx =
     (case scanProfile p 0 templateCache settings settingIdx of
        (templateCache', settings', settingIdx') \<Rightarrow>
          applyProfiles ps templateCache' settings' settingIdx')"

text \<open>
  Reading a Go map at a key it does not hold gives the zero value.
\<close>

definition mapIndex :: "(string \<rightharpoonup> nat) \<Rightarrow> string \<Rightarrow> nat" where
  "mapIndex m k = (case m k of None \<Rightarrow> 0 | Some i \<Rightarrow> i)"

text \<open>\<^verbatim>\<open>fmt.Fprintf(config, "%s=%s\n", setting.key, setting.value)\<close>\<close>

definition settingLine :: "kv \<Rightarrow> string" where
  "settingLine s = key s @ ''='' @ val s @ [newline]"

definition configHeader :: string where
  "configHeader = ''# Generated by tcprofiles command'' @ [newline, newline]"

text \<open>
  The final loop \<^verbatim>\<open>for idx, setting := range settings\<close>.  The builder is modelled as the
  sequence of its writes; \<open>concat\<close> of it is what \<^verbatim>\<open>config.String()\<close> returns.
\<close>

fun emitSettings :: "(string \<rightharpoonup> nat) \<Rightarrow> nat \<Rightarrow> kv list \<Rightarrow> string list" where
  "emitSettings settingIdx idx [] = []"
| "emitSettings settingIdx idx (s # ss) =
     (if mapIndex settingIdx (key s) = idx then [settingLine s] else [])
       @ emitSettings settingIdx (idx + 1) ss"

text \<open>\<^verbatim>\<open>if selected[0] == defaultProfileName { selected = selected[1:] }\<close>\<close>

definition normalizeSelected :: "string list \<Rightarrow> string list" where
  "normalizeSelected selected =
     (if hd selected = defaultProfileName then tl selected else selected)"

definition fillConfig :: "sectionLine list \<Rightarrow> string list \<Rightarrow> panic + string list" where
  "fillConfig template selected =
     (if selected = [] then Inl IndexOutOfRange
      else
        (case applyProfiles (defaultProfileName # normalizeSelected selected) template [] Map.empty of
           (templateCache, settings, settingIdx) \<Rightarrow>
             Inr (configHeader # emitSettings settingIdx 0 settings)))"

definition configString :: "string list \<Rightarrow> string" where
  "configString writes = concat writes"

section \<open>Specification-level functions for the merger\<close>

text \<open>
  These functions are not part of the program.  They state what the loops of \<open>fillConfig\<close>
  compute: the settings of one profile in template order, the profiles of a list at their
  first occurrence, the sequence of applied settings, and that sequence with every entry
  dropped that is followed by a later entry for the same key.
\<close>

definition profileSettings :: "sectionLine list \<Rightarrow> string \<Rightarrow> kv list" where
  "profileSettings t p = map setting (filter (\<lambda>l. profile l = p) t)"

fun firstOccurrences :: "string list \<Rightarrow> string list" where
  "firstOccurrences [] = []"
| "firstOccurrences (p # ps) = p # removeAll p (firstOccurrences ps)"

definition effectiveOrder :: "string list \<Rightarrow> string list" where
  "effectiveOrder selected = defaultProfileName # normalizeSelected selected"

definition appliedSettings :: "sectionLine list \<Rightarrow> string list \<Rightarrow> kv list" where
  "appliedSettings t ps = concat (map (profileSettings t) (firstOccurrences ps))"

fun keepLast :: "kv list \<Rightarrow> kv list" where
  "keepLast [] = []"
| "keepLast (s # ss) = (if key s \<in> key ` set ss then keepLast ss else s # keepLast ss)"

fun pointAt :: "(string \<rightharpoonup> nat) \<Rightarrow> nat \<Rightarrow> kv list \<Rightarrow> (string \<rightharpoonup> nat)" where
  "pointAt m n [] = m"
| "pointAt m n (s # ss) = pointAt (m(key s \<mapsto> n)) (n + 1) ss"

fun appliedFrom :: "sectionLine list \<Rightarrow> string list \<Rightarrow> kv list" where
  "appliedFrom c [] = []"
| "appliedFrom c (p # ps) =
     profileSettings c p @ appliedFrom (filter (\<lambda>l. profile l \<noteq> p) c) ps"

text \<open>The template of the concrete scenario of the specification, and a two-profile template.\<close>

definition tlpTemplate :: "sectionLine list" where
  "tlpTemplate =
     [\<lparr>profile = ''default'', setting = \<lparr>key = ''TLP_ENABLE'', val = ''0''\<rparr>\<rparr>,
      \<lparr>profile = ''bat'', setting = \<lparr>key = ''TLP_ENABLE'', val = ''1''\<rparr>\<rparr>,
      \<lparr>profile = ''bat'', setting = \<lparr>key = ''CPU_SCALING'', val = ''power''\<rparr>\<rparr>]"

definition abTemplate :: "sectionLine list" where
  "abTemplate =
     [\<lparr>profile = ''a'', setting = \<lparr>key = ''K'', val = ''1''\<rparr>\<rparr>,
      \<lparr>profile = ''b'', setting = \<lparr>key = ''K'', val = ''2''\<rparr>\<rparr>]"

section \<open>Input parsing: lastIndex and parseInput (main.go, lines 204-252)\<close>

text \<open>
  \<^verbatim>\<open>for i := len(s) - 1; i != 0; i-- { if v == s[i] { return i } }; return -1\<close>.
  The loop never looks at index 0.  On an empty slice it starts at index -1 and the read
  \<^verbatim>\<open>s[i]\<close> panics.
\<close>

fun lastIndexFrom :: "'a list \<Rightarrow> 'a \<Rightarrow> nat \<Rightarrow> int" where
  "lastIndexFrom s v 0 = - 1"
| "lastIndexFrom s v (Suc i) = (if v = s ! Suc i then int (Suc i) else lastIndexFrom s v i)"

definition lastIndex :: "'a list \<Rightarrow> 'a \<Rightarrow> panic + int" where
  "lastIndex s v =
     (if s = [] then Inl IndexOutOfRange else Inr (lastIndexFrom s v (length s - 1)))"

text \<open>
  \<^verbatim>\<open>flag.Parse()\<close> of the standard library, for the two boolean flags \<^verbatim>\<open>help\<close> and \<^verbatim>\<open>h\<close>
  that \<open>parseInput\<close> declares.  It reads the arguments from the left and stops at the first
  one that is no flag (shorter than two characters, or not starting with a minus sign) or
  is \<^verbatim>\<open>--\<close>.  A flag is written with one or two minus signs, and a boolean flag may carry
  a value after an equals sign, read by \<^verbatim>\<open>strconv.ParseBool\<close>.  On a flag that is ill-formed,
  not declared or has a value that is no boolean, the command line flag set
  (\<^verbatim>\<open>flag.ExitOnError\<close>) leaves the process with status 2.
\<close>

definition parseBool :: "string \<Rightarrow> bool option" where
  "parseBool v =
     (if v \<in> set [''1'', ''t'', ''T'', ''TRUE'', ''true'', ''True''] then Some True
      else if v \<in> set [''0'', ''f'', ''F'', ''FALSE'', ''false'', ''False''] then Some False
      else None)"

datatype flagOutcome =
    FlagsParsed bool bool
  | FlagExit nat

fun flagParse :: "bool \<Rightarrow> bool \<Rightarrow> string list \<Rightarrow> flagOutcome" where
  "flagParse h hs [] = FlagsParsed h hs"
| "flagParse h hs (s # args) =
     (if length s < 2 \<or> hd s \<noteq> CHR ''-'' then FlagsParsed h hs
      else if s = ''--'' then FlagsParsed h hs
      else
        (let name = (if s ! 1 = CHR ''-'' then drop 2 s else drop 1 s) in
         if name = [] \<or> hd name = CHR ''-'' \<or> hd name = CHR ''='' then FlagExit 2
         else
           (let flag = takeWhile (\<lambda>c. c \<noteq> CHR ''='') name;
                rest = dropWhile (\<lambda>c. c \<noteq> CHR ''='') name;
                value = (if rest = [] then Some True else parseBool (tl rest))
            in
              if flag \<noteq> ''help'' \<and> flag \<noteq> ''h'' then FlagExit 2
              else
                (case value of
                   None \<Rightarrow> FlagExit 2
                 | Some b \<Rightarrow>
                     flagParse (if flag = ''help'' then b else h)
                       (if flag = ''h'' then b else hs) args))))"

text \<open>
  \<open>parseInput\<close> on the arguments after the program name.  The command \<^verbatim>\<open>template\<close> creates
  the template file and leaves the process with status 0.
\<close>

datatype inputError =
    ErrNoArguments
  | UnknownCommand string
  | NoProfilesSelected
  | DefaultNotFirst "string list"

datatype inputResult =
    Selected "string list"
  | InputError inputError
  | TemplateCreatedExit
  | FlagParseExit nat
  | InputPanic panic

definition parseInput :: "string list \<Rightarrow> inputResult" where
  "parseInput inputs =
     (if inputs = [] then InputError ErrNoArguments
      else
        (case flagParse False False inputs of
           FlagExit status \<Rightarrow> FlagParseExit status
         | FlagsParsed h hs \<Rightarrow>
             if h \<or> hs then InputError ErrNoArguments
             else if hd inputs = ''template'' then TemplateCreatedExit
             else if hd inputs \<noteq> ''use'' then InputError (UnknownCommand (hd inputs))
             else
               (let inputs = tl inputs in
                if inputs = [] then InputError NoProfilesSelected
                else
                  (let profiles = inputs in
                   if length profiles > 0 then
                     (case lastIndex profiles defaultProfileName of
                        Inl p \<Rightarrow> InputPanic p
                      | Inr i \<Rightarrow>
                          if i > 0 then InputError (DefaultNotFirst profiles)
                          else Selected profiles)
                   else Selected profiles))))"

section \<open>Profile listing: getProfiles (main.go, lines 131-146)\<close>

text \<open>
  The Go map \<open>ps\<close> is a list of distinct keys.  The order in which \<^verbatim>\<open>range ps\<close> visits the
  keys is not fixed by the language: it is the parameter \<open>rangeOrder\<close>.  \<^verbatim>\<open>slices.Sort\<close>
  orders strings bytewise, which is the lexicographic order on lists of characters.
\<close>

definition getProfiles :: "(string list \<Rightarrow> string list) \<Rightarrow> sectionLine list \<Rightarrow> string list" where
  "getProfiles rangeOrder sls =
     (let ps = fold (\<lambda>sl ps. List.insert (profile sl) ps) sls [];
          ps = removeAll defaultProfileName ps;
          psArr = fold (\<lambda>p psArr. psArr @ [p]) (rangeOrder ps) []
      in [defaultProfileName] @ sort psArr)"

definition sampleTemplate :: "sectionLine list" where
  "sampleTemplate =
     [\<lparr>profile = ''bat'', setting = \<lparr>key = ''A'', val = ''1''\<rparr>\<rparr>,
      \<lparr>profile = ''ac'', setting = \<lparr>key = ''A'', val = ''2''\<rparr>\<rparr>,
      \<lparr>profile = ''bat'', setting = \<lparr>key = ''B'', val = ''3''\<rparr>\<rparr>]"

section \<open>The template parser: parseTemplate (main.go, lines 148-202)\<close>

text \<open>
  \<^verbatim>\<open>strings.TrimSpace\<close> removes the leading and the trailing white space of a string, as
  Unicode defines it (\<^verbatim>\<open>unicode.IsSpace\<close>), rune by rune.  A string begins (ends) with a
  white space rune exactly when it begins (ends) with the UTF-8 encoding of one: the
  encodings below are those of U+0009 to U+000D, U+0020, U+0085, U+00A0, U+1680, U+2000 to
  U+200A, U+2028, U+2029, U+202F, U+205F and U+3000.  Bytes that are no valid encoding
  decode to U+FFFD, which is no white space.
\<close>

definition spaceRunes :: "string list" where
  "spaceRunes =
     [[CHR 0x09], [CHR 0x0A], [CHR 0x0B], [CHR 0x0C], [CHR 0x0D], [CHR 0x20],
      [CHR 0xC2, CHR 0x85], [CHR 0xC2, CHR 0xA0],
      [CHR 0xE1, CHR 0x9A, CHR 0x80],
      [CHR 0xE2, CHR 0x80, CHR 0x80], [CHR 0xE2, CHR 0x80, CHR 0x81],
      [CHR 0xE2, CHR 0x80, CHR 0x82], [CHR 0xE2, CHR 0x80, CHR 0x83],
      [CHR 0xE2, CHR 0x80, CHR 0x84], [CHR 0xE2, CHR 0x80, CHR 0x85],
      [CHR 0xE2, CHR 0x80, CHR 0x86], [CHR 0xE2, CHR 0x80, CHR 0x87],
      [CHR 0xE2, CHR 0x80, CHR 0x88], [CHR 0xE2, CHR 0x80, CHR 0x89],
      [CHR 0xE2, CHR 0x80, CHR 0x8A],
      [CHR 0xE2, CHR 0x80, CHR 0xA8], [CHR 0xE2, CHR 0x80, CHR 0xA9],
      [CHR 0xE2, CHR 0x80, CHR 0xAF],
      [CHR 0xE2, CHR 0x81, CHR 0x9F],
      [CHR 0xE3, CHR 0x80, CHR 0x80]]"

definition runePrefix :: "string list \<Rightarrow> string \<Rightarrow> nat" where
  "runePrefix encs s =
     (case find (\<lambda>e. e \<noteq> [] \<and> prefix e s) encs of None \<Rightarrow> 0 | Some e \<Rightarrow> length e)"

function trimPrefix :: "string list \<Rightarrow> string \<Rightarrow> string" where
  "trimPrefix encs s =
     (if runePrefix encs s = 0 then s else trimPrefix encs (drop (runePrefix encs s) s))"
  by pat_completeness auto
termination
proof (relation "measure (\<lambda>(encs, s). length s)")
  show "wf (measure (\<lambda>(encs, s). length s))" by simp
next
  fix encs :: "string list" and s :: string
  assume a: "runePrefix encs s \<noteq> 0"
  then obtain e where "find (\<lambda>e. e \<noteq> [] \<and> prefix e s) encs = Some e"
    by (auto simp: runePrefix_def split: option.splits)
  then have "e \<noteq> []" "prefix e s" by (auto simp: find_Some_iff)
  then have "s \<noteq> []" by auto
  with a show "((encs, drop (runePrefix encs s) s), (encs, s)) \<in> measure (\<lambda>(encs, s). length s)"
    by simp
qed

declare trimPrefix.simps [simp del]

definition TrimSpace :: "string \<Rightarrow> string" where
  "TrimSpace s = rev (trimPrefix (map rev spaceRunes) (rev (trimPrefix spaceRunes s)))"

text \<open>
  The regular expressions.  \<^verbatim>\<open>\w\<close> is the class of ASCII letters, digits and the
  underscore; \<^verbatim>\<open>.\<close> is any character but the line feed; \<^verbatim>\<open>^\<close> and \<^verbatim>\<open>$\<close> are the two
  ends of the text.
  \<^item> \<open>sectionRegex\<close> is \<^verbatim>\<open>^\[.*\]$\<close>;
  \<^item> \<open>validSectionNameRegex\<close> is \<^verbatim>\<open>^[\w\d]+$\<close>;
  \<^item> \<open>keyValRegex\<close> is \<^verbatim>\<open>^([\w]+?)=(.+)$\<close>, with the two groups that
    \<^verbatim>\<open>FindStringSubmatch\<close> returns, and \<open>None\<close> where it returns no match.  The equals sign
    is no word character, so the first group of any match is the longest prefix of word
    characters.
\<close>

definition wordChar :: "char \<Rightarrow> bool" where
  "wordChar c \<longleftrightarrow>
     (CHR ''0'' \<le> c \<and> c \<le> CHR ''9'') \<or> (CHR ''A'' \<le> c \<and> c \<le> CHR ''Z'')
       \<or> c = CHR ''_'' \<or> (CHR ''a'' \<le> c \<and> c \<le> CHR ''z'')"

definition sectionRegex :: "string \<Rightarrow> bool" where
  "sectionRegex line \<longleftrightarrow>
     (case line of
        [] \<Rightarrow> False
      | c # cs \<Rightarrow> c = CHR ''['' \<and> cs \<noteq> [] \<and> last cs = CHR '']'' \<and> newline \<notin> set (butlast cs))"

definition validSectionNameRegex :: "string \<Rightarrow> bool" where
  "validSectionNameRegex p \<longleftrightarrow> p \<noteq> [] \<and> list_all wordChar p"

definition keyValRegex :: "string \<Rightarrow> (string \<times> string) option" where
  "keyValRegex line =
     (let k = takeWhile wordChar line; r = dropWhile wordChar line in
      case r of
        [] \<Rightarrow> None
      | c # v \<Rightarrow>
          if k \<noteq> [] \<and> c = CHR ''='' \<and> v \<noteq> [] \<and> newline \<notin> set v then Some (k, v) else None)"

text \<open>
  The errors \<open>parseTemplate\<close> returns for the content of the file.  The input of the model
  is the content of the file; failures of the operating system to open or to read it are
  outside the model.
\<close>

datatype parseError =
    MalformedSectionName string nat
  | MalformedLine nat string

text \<open>
  \<^verbatim>\<open>bf.ReadString('\n')\<close> returns the input up to and including the first line feed; when
  there is none it returns what is left together with \<^verbatim>\<open>io.EOF\<close>.
\<close>

definition readLine :: "string \<Rightarrow> string" where
  "readLine input =
     (if newline \<in> set input then takeWhile (\<lambda>c. c \<noteq> newline) input @ [newline] else input)"

definition readRest :: "string \<Rightarrow> string" where
  "readRest input = drop (length (readLine input)) input"

definition readEOF :: "string \<Rightarrow> bool" where
  "readEOF input \<longleftrightarrow> newline \<notin> set input"

text \<open>
  The loop of \<open>parseTemplate\<close>: \<open>lineNum\<close> counts the lines read, \<open>lines\<close> collects the
  records, \<open>input\<close> is what the reader has not delivered yet.
\<close>

function parseLoop ::
  "string \<Rightarrow> nat \<Rightarrow> sectionLine list \<Rightarrow> string \<Rightarrow> parseError + sectionLine list" where
  "parseLoop curProfile lineNum lines input =
     (let lineNum = lineNum + 1;
          eof = readEOF input;
          line = TrimSpace (readLine input)
      in
        if line = [] \<or> hd line = CHR ''#'' then
          (if eof then Inr lines else parseLoop curProfile lineNum lines (readRest input))
        else if sectionRegex line then
          (let p = butlast (tl line) in
           if \<not> validSectionNameRegex p then Inl (MalformedSectionName p lineNum)
           else if eof then Inr lines
           else parseLoop p lineNum lines (readRest input))
        else
          (case keyValRegex line of
             None \<Rightarrow> Inl (MalformedLine lineNum line)
           | Some (k, v) \<Rightarrow>
               (let lines = lines @ [\<lparr>profile = curProfile, setting = \<lparr>key = k, val = v\<rparr>\<rparr>] in
                if eof then Inr lines else parseLoop curProfile lineNum lines (readRest input))))"
  by pat_completeness auto
termination
proof -
  have r: "\<not> readEOF input \<Longrightarrow> length (readRest input) < length input" for input
    by (cases input) (auto simp: readEOF_def readRest_def readLine_def)
  show ?thesis
    by (relation "measure (\<lambda>(c, n, ls, input). length input)") (auto simp: r)
qed

declare parseLoop.simps [simp del]

definition parseTemplate :: "string \<Rightarrow> parseError + sectionLine list" where
  "parseTemplate text = parseLoop defaultProfileName 0 [] text"

section \<open>The parser of the other variant (part_001, lines 110-167)\<close>

text \<open>
  \<open>sectionRegex1\<close> is \<^verbatim>\<open>\[[\w\d]+\]$\<close>, which is not anchored at the start of the line;
  \<open>keyValRegex1\<close> is \<^verbatim>\<open>^([A-Za-z0-9_]+)=(.+)$\<close>.  A line that matches neither is reported
  on the error stream and skipped with \<^verbatim>\<open>continue\<close>, which also skips the test for the end
  of the input; the next read then returns the empty string and \<^verbatim>\<open>io.EOF\<close>.
\<close>

definition sectionRegex1 :: "string \<Rightarrow> bool" where
  "sectionRegex1 line \<longleftrightarrow>
     line \<noteq> [] \<and> last line = CHR '']'' \<and>
     (let r = rev (butlast line) in
      takeWhile wordChar r \<noteq> [] \<and>
      (case dropWhile wordChar r of [] \<Rightarrow> False | c # cs \<Rightarrow> c = CHR ''[''))"

definition keyValRegex1 :: "string \<Rightarrow> (string \<times> string) option" where
  "keyValRegex1 line =
     (let k = takeWhile wordChar line; r = dropWhile wordChar line in
      case r of
        [] \<Rightarrow> None
      | c # v \<Rightarrow>
          if k \<noteq> [] \<and> c = CHR ''='' \<and> v \<noteq> [] \<and> newline \<notin> set v then Some (k, v) else None)"

function parseLoop1 ::
  "string \<Rightarrow> nat \<Rightarrow> sectionLine list \<Rightarrow> string \<Rightarrow> sectionLine list" where
  "parseLoop1 curProfile lineNum lines input =
     (let lineNum = lineNum + 1;
          eof = readEOF input;
          line = TrimSpace (readLine input)
      in
        if line = [] \<or> hd line = CHR ''#'' then
          (if eof then lines else parseLoop1 curProfile lineNum lines (readRest input))
        else if sectionRegex1 line then
          (let p = butlast (tl line) in
           if eof then lines else parseLoop1 p lineNum lines (readRest input))
        else
          (case keyValRegex1 line of
             None \<Rightarrow> parseLoop1 curProfile lineNum lines (readRest input)
           | Some (k, v) \<Rightarrow>
               (let lines = lines @ [\<lparr>profile = curProfile, setting = \<lparr>key = k, val = v\<rparr>\<rparr>] in
                if eof then lines else parseLoop1 curProfile lineNum lines (readRest input))))"
  by pat_completeness auto
termination
proof -
  have f: "find (\<lambda>e. e \<noteq> [] \<and> prefix e []) encs = None" for encs :: "string list"
    by (induction encs) auto
  have "runePrefix encs [] = 0" for encs
    using f[of encs] by (simp add: runePrefix_def)
  then have "trimPrefix encs [] = []" for encs
    by (subst trimPrefix.simps) simp
  then have t: "TrimSpace [] = []" by (simp add: TrimSpace_def)
  have r: "input \<noteq> [] \<Longrightarrow> length (readRest input) < length input" for input
    by (cases input) (auto simp: readRest_def readLine_def)
  have n: "TrimSpace (readLine input) \<noteq> [] \<Longrightarrow> input \<noteq> []" for input
    by (auto simp: readLine_def t)
  have e: "\<not> readEOF input \<Longrightarrow> input \<noteq> []" for input
    by (auto simp: readEOF_def)
  show ?thesis
    by (relation "measure (\<lambda>(c, n, ls, input). length input)")
       (auto dest!: n e intro: r)
qed

declare parseLoop1.simps [simp del]

definition parseTemplate1 :: "string \<Rightarrow> sectionLine list" where
  "parseTemplate1 text = parseLoop1 defaultProfileName 0 [] text"

section \<open>Specification-level functions for the parser\<close>

text \<open>
  These functions are not part of the program.  \<open>lineStep\<close> is the effect of one pass of the
  loop on the current profile and the records; \<open>lineOK\<close> says that a line is blank, a
  comment, a section header with a valid name or a setting; \<open>joinLines\<close> ends each line
  with a line feed; \<open>currentProfile\<close> is the name in the last section header of the lines
  read so far, and default when there is none.
\<close>

definition lineStep ::
  "string \<Rightarrow> nat \<Rightarrow> sectionLine list \<Rightarrow> string \<Rightarrow> parseError + (string \<times> sectionLine list)" where
  "lineStep cur n acc raw =
     (let line = TrimSpace raw in
      if line = [] \<or> hd line = CHR ''#'' then Inr (cur, acc)
      else if sectionRegex line then
        (if \<not> validSectionNameRegex (butlast (tl line))
         then Inl (MalformedSectionName (butlast (tl line)) n)
         else Inr (butlast (tl line), acc))
      else
        (case keyValRegex line of
           None \<Rightarrow> Inl (MalformedLine n line)
         | Some (k, v) \<Rightarrow> Inr (cur, acc @ [\<lparr>profile = cur, setting = \<lparr>key = k, val = v\<rparr>\<rparr>])))"

definition lineOK :: "string \<Rightarrow> bool" where
  "lineOK raw \<longleftrightarrow>
     (let line = TrimSpace raw in
      line = [] \<or> hd line = CHR ''#''
      \<or> (sectionRegex line \<and> validSectionNameRegex (butlast (tl line)))
      \<or> (\<not> sectionRegex line \<and> keyValRegex line \<noteq> None))"

definition joinLines :: "string list \<Rightarrow> string" where
  "joinLines ls = concat (map (\<lambda>l. l @ [newline]) ls)"

definition profileAfter :: "string \<Rightarrow> string list \<Rightarrow> string" where
  "profileAfter c ls =
     fold (\<lambda>l c. if sectionRegex (TrimSpace l) then butlast (tl (TrimSpace l)) else c) ls c"

definition currentProfile :: "string list \<Rightarrow> string" where
  "currentProfile ls = profileAfter defaultProfileName ls"

section \<open>fillConfig on an explicit store (main.go, lines 269-297)\<close>

text \<open>
  A Go slice is a view \<open>(arr, off, len, cap)\<close> of a backing array; the store maps the
  address of each array to its content, and \<open>nextAddr\<close> is the first address not yet
  allocated.
  \<^item> \<^verbatim>\<open>slices.Clone(template)\<close> allocates a new array that holds the elements of the slice.
  \<^item> \<^verbatim>\<open>templateCache[i]\<close> reads the array at \<open>off + i\<close>.
  \<^item> \<^verbatim>\<open>append(templateCache[:i], templateCache[i+1:]...)\<close> has room in the capacity of its
    first argument, so it copies the elements after \<open>i\<close> one place down inside the same
    array and returns the slice shortened by one; the array cell behind the new end keeps
    its old content.
  The loops are those of \<open>scanProfile\<close>, \<open>applyProfiles\<close> and \<open>fillConfig\<close> above, with the
  cache held in the store; \<open>fillConfigS\<close> also returns the store it leaves behind.
\<close>

record slice =
  arr :: nat
  off :: nat
  len :: nat
  cap :: nat

record heap =
  arrays :: "nat \<Rightarrow> sectionLine list"
  nextAddr :: nat

definition sliceElems :: "heap \<Rightarrow> slice \<Rightarrow> sectionLine list" where
  "sliceElems h s = take (len s) (drop (off s) (arrays h (arr s)))"

definition sliceValid :: "heap \<Rightarrow> slice \<Rightarrow> bool" where
  "sliceValid h s \<longleftrightarrow>
     arr s < nextAddr h \<and> len s \<le> cap s \<and> off s + cap s \<le> length (arrays h (arr s))"

definition slicesClone :: "heap \<Rightarrow> slice \<Rightarrow> heap \<times> slice" where
  "slicesClone h s =
     (h\<lparr>arrays := (arrays h)(nextAddr h := sliceElems h s), nextAddr := nextAddr h + 1\<rparr>,
      \<lparr>arr = nextAddr h, off = 0, len = len s, cap = len s\<rparr>)"

definition sliceIndex :: "heap \<Rightarrow> slice \<Rightarrow> nat \<Rightarrow> sectionLine" where
  "sliceIndex h s i = arrays h (arr s) ! (off s + i)"

definition appendCut :: "heap \<Rightarrow> slice \<Rightarrow> nat \<Rightarrow> heap \<times> slice" where
  "appendCut h s i =
     (let a = arrays h (arr s);
          moved = take (len s - (i + 1)) (drop (off s + (i + 1)) a);
          a' = take (off s + i) a @ moved @ drop (off s + i + length moved) a
      in (h\<lparr>arrays := (arrays h)(arr s := a')\<rparr>, s\<lparr>len := i + length moved\<rparr>))"

function scanProfileS ::
  "string \<Rightarrow> nat \<Rightarrow> heap \<Rightarrow> slice \<Rightarrow> kv list \<Rightarrow> (string \<rightharpoonup> nat)
     \<Rightarrow> heap \<times> slice \<times> kv list \<times> (string \<rightharpoonup> nat)" where
  "scanProfileS p i h templateCache settings settingIdx =
     (if i < len templateCache then
        (if profile (sliceIndex h templateCache i) \<noteq> p
         then scanProfileS p (i + 1) h templateCache settings settingIdx
         else
           (let settings' = settings @ [setting (sliceIndex h templateCache i)];
                settingIdx' = settingIdx(key (setting (sliceIndex h templateCache i))
                                \<mapsto> length settings' - 1)
            in scanProfileS p i (fst (appendCut h templateCache i)) (snd (appendCut h templateCache i))
                 settings' settingIdx'))
      else (h, templateCache, settings, settingIdx))"
  by pat_completeness auto
termination
  by (relation "measure (\<lambda>(p, i, h, c, s, m). len c - i)")
     (auto simp: appendCut_def Let_def)


declare scanProfileS.simps [simp del]

fun applyProfilesS ::
  "string list \<Rightarrow> heap \<Rightarrow> slice \<Rightarrow> kv list \<Rightarrow> (string \<rightharpoonup> nat)
     \<Rightarrow> heap \<times> slice \<times> kv list \<times> (string \<rightharpoonup> nat)" where
  "applyProfilesS [] h templateCache settings settingIdx = (h, templateCache, settings, settingIdx)"
| "applyProfilesS (p # ps) h templateCache settings settingIdx =
     (case scanProfileS p 0 h templateCache settings settingIdx of
        (h', templateCache', settings', settingIdx') \<Rightarrow>
          applyProfilesS ps h' templateCache' settings' settingIdx')"

definition fillConfigS :: "heap \<Rightarrow> slice \<Rightarrow> string list \<Rightarrow> panic + heap \<times> string list" where
  "fillConfigS h template selected =
     (if selected = [] then Inl IndexOutOfRange
      else
        (case slicesClone h template of
           (h1, templateCache) \<Rightarrow>
             (case applyProfilesS (defaultProfileName # normalizeSelected selected)
                     h1 templateCache [] Map.empty of
                (h2, templateCache', settings, settingIdx) \<Rightarrow>
                  Inr (h2, configHeader # emitSettings settingIdx 0 settings))))"

definition cacheInv :: "heap \<Rightarrow> slice \<Rightarrow> bool" where
  "cacheInv h c \<longleftrightarrow> off c + len c \<le> length (arrays h (arr c))"

text \<open>A store and a slice that hold the template of the scenario.\<close>

definition tlpHeap :: heap where
  "tlpHeap = \<lparr>arrays = (\<lambda>a. if a = 0 then tlpTemplate else []), nextAddr = 1\<rparr>"

definition tlpSlice :: slice where
  "tlpSlice = \<lparr>arr = 0, off = 0, len = 3, cap = 3\<rparr>"

section \<open>The loops of fillConfig compute the specification-level functions\<close>

lemma pointAt_append: "pointAt m n (xs @ ys) = pointAt (pointAt m n xs) (n + length xs) ys"
  by (induction xs arbitrary: m n) simp_all

lemma pointAt_other: "k \<notin> key ` set xs \<Longrightarrow> pointAt m n xs k = m k"
  by (induction xs arbitrary: m n) auto

lemma pointAt_range:
  "k \<in> key ` set xs \<Longrightarrow> \<exists>j. pointAt m n xs k = Some j \<and> n \<le> j \<and> j < n + length xs"
proof (induction xs arbitrary: m n)
  case Nil then show ?case by simp
next
  case (Cons x xs)
  show ?case
  proof (cases "k \<in> key ` set xs")
    case True
    from Cons.IH[OF True, of "m(key x \<mapsto> n)" "n + 1"]
    obtain j where "pointAt (m(key x \<mapsto> n)) (n + 1) xs k = Some j" "n + 1 \<le> j" "j < n + 1 + length xs"
      by blast
    then show ?thesis by (intro exI[of _ j]) simp
  next
    case False
    with Cons.prems have "k = key x" by auto
    with False show ?thesis by (simp add: pointAt_other)
  qed
qed

lemma scanProfile_eq:
  "scanProfile p i c s m =
     (take i c @ filter (\<lambda>l. profile l \<noteq> p) (drop i c),
      s @ map setting (filter (\<lambda>l. profile l = p) (drop i c)),
      pointAt m (length s) (map setting (filter (\<lambda>l. profile l = p) (drop i c))))"
proof (induction p i c s m rule: scanProfile.induct)
  case (1 p i c s m)
  show ?case
  proof (cases "i < length c")
    case False
    then show ?thesis by (simp add: scanProfile.simps[of p i c s m])
  next
    case True
    then have d: "drop i c = c ! i # drop (Suc i) c" by (simp add: Cons_nth_drop_Suc)
    show ?thesis
    proof (cases "profile (c ! i) \<noteq> p")
      case True
      from "1.IH"(1)[OF \<open>i < length c\<close> True] \<open>i < length c\<close> True d
      show ?thesis
        by (simp add: scanProfile.simps[of p i c s m] take_Suc_conv_app_nth)
    next
      case False
      have dd: "drop i (take i c @ drop (i + 1) c) = drop (i + 1) c"
        using True by simp
      have tt: "take i (take i c @ drop (i + 1) c) = take i c"
        using True by simp
      note ih = "1.IH"(2)[OF \<open>i < length c\<close> False refl refl refl, unfolded dd tt]
      have "scanProfile p i c s m =
              scanProfile p i (take i c @ drop (i + 1) c) (s @ [setting (c ! i)])
                (m(key (setting (c ! i)) \<mapsto> length (s @ [setting (c ! i)]) - 1))"
        using True False by (subst scanProfile.simps) (simp add: Let_def)
      also note ih
      finally have "scanProfile p i c s m = (take i c @ filter (\<lambda>l. profile l \<noteq> p) (drop (i + 1) c),
             (s @ [setting (c ! i)]) @ map setting (filter (\<lambda>l. profile l = p) (drop (i + 1) c)),
             pointAt (m(key (setting (c ! i)) \<mapsto> length (s @ [setting (c ! i)]) - 1)) (length (s @ [setting (c ! i)]))
                (map setting (filter (\<lambda>l. profile l = p) (drop (i + 1) c))))" .
      with False d show ?thesis
        by simp
    qed
  qed
qed

lemma applyProfiles_eq:
  "applyProfiles ps c s m =
     (filter (\<lambda>l. profile l \<notin> set ps) c, s @ appliedFrom c ps,
      pointAt m (length s) (appliedFrom c ps))"
proof (induction ps arbitrary: c s m)
  case Nil then show ?case by simp
next
  case (Cons p ps)
  show ?case
    by (simp add: scanProfile_eq Cons.IH profileSettings_def pointAt_append conj_commute)
qed

lemma profileSettings_filter:
  "concat (map (profileSettings (filter (\<lambda>l. profile l \<noteq> p) c)) qs)
     = concat (map (profileSettings c) (removeAll p qs))"
proof (induction qs)
  case Nil then show ?case by simp
next
  case (Cons q qs)
  have "profileSettings (filter (\<lambda>l. profile l \<noteq> p) c) q = (if q = p then [] else profileSettings c q)"
    by (auto simp: profileSettings_def filter_empty_conv intro!: arg_cong[where f = "map setting"] filter_cong)
  with Cons show ?case by simp
qed

lemma appliedFrom_eq: "appliedFrom c ps = appliedSettings c ps"
  unfolding appliedSettings_def
  by (induction ps arbitrary: c) (simp_all add: profileSettings_filter)

lemma emitSettings_eq:
  "emitSettings (pointAt m 0 (pre @ ss)) (length pre) ss = map settingLine (keepLast ss)"
proof (induction ss arbitrary: pre)
  case Nil then show ?case by simp
next
  case (Cons x xs)
  have M: "pointAt m 0 (pre @ x # xs) = pointAt ((pointAt m 0 pre)(key x \<mapsto> length pre)) (length pre + 1) xs"
    by (simp add: pointAt_append)
  have "mapIndex (pointAt m 0 (pre @ x # xs)) (key x) = length pre \<longleftrightarrow> key x \<notin> key ` set xs"
  proof (cases "key x \<in> key ` set xs")
    case True
    from pointAt_range[OF True, of "(pointAt m 0 pre)(key x \<mapsto> length pre)" "length pre + 1"]
    show ?thesis using True by (auto simp: M mapIndex_def)
  next
    case False
    then show ?thesis by (simp add: M pointAt_other mapIndex_def)
  qed
  moreover from Cons.IH[of "pre @ [x]"]
  have "emitSettings (pointAt m 0 (pre @ x # xs)) (length pre + 1) xs = map settingLine (keepLast xs)"
    by simp
  ultimately show ?case by simp
qed

lemma fillConfig_eq:
  "selected \<noteq> [] \<Longrightarrow>
     fillConfig t selected =
       Inr (configHeader # map settingLine (keepLast (appliedSettings t (effectiveOrder selected))))"
  using emitSettings_eq[of Map.empty "[]"]
  by (simp add: fillConfig_def applyProfiles_eq appliedFrom_eq effectiveOrder_def)

lemma firstOccurrences_dup:
  "firstOccurrences (as @ p # p # bs) = firstOccurrences (as @ p # bs)"
  by (induction as) simp_all

lemma effectiveOrder_dup:
  "firstOccurrences (effectiveOrder (xs @ p # p # ys)) = firstOccurrences (effectiveOrder (xs @ p # ys))"
proof (cases xs)
  case Nil
  have "firstOccurrences (defaultProfileName # p # p # ys) = firstOccurrences (defaultProfileName # p # ys)"
    using firstOccurrences_dup[of "[defaultProfileName]" p ys] by simp
  moreover have "firstOccurrences (defaultProfileName # p # ys) = firstOccurrences (defaultProfileName # ys)"
    if "p = defaultProfileName"
    using that firstOccurrences_dup[of "[]" p ys] by simp
  ultimately show ?thesis using Nil
    by (auto simp: effectiveOrder_def normalizeSelected_def)
next
  case (Cons x xs')
  show ?thesis
  proof (cases "x = defaultProfileName")
    case True
    then show ?thesis using Cons firstOccurrences_dup[of "defaultProfileName # xs'" p ys]
      by (simp add: effectiveOrder_def normalizeSelected_def)
  next
    case False
    then show ?thesis using Cons firstOccurrences_dup[of "defaultProfileName # x # xs'" p ys]
      by (simp add: effectiveOrder_def normalizeSelected_def)
  qed
qed

text \<open>
  Claim C3.  Naming a profile twice in a row gives the same output as naming it once, for
  every template and at every place of the selection; in particular the selection
  default, bat, bat resolves as default, bat does.  The second scan finds no record of the
  profile left in the cache: each record is consumed by the scan that matched it.
\<close>

theorem fillConfig_repeated_profile:
  "fillConfig t (xs @ p # p # ys) = fillConfig t (xs @ p # ys)
   \<and> fillConfig t [''default'', ''bat'', ''bat''] = fillConfig t [''default'', ''bat'']"
proof -
  have "fillConfig t (xs @ p # p # ys) = fillConfig t (xs @ p # ys)" for xs p ys
    by (simp add: fillConfig_eq appliedSettings_def effectiveOrder_dup)
  from this[of xs p ys] this[of "[''default'']" "''bat''" "[]"] show ?thesis by simp
qed

text \<open>
  Claim C2.  For every template and every non-empty selection, \<open>fillConfig\<close> drops a leading
  default from the selection and applies the profiles default, then the normalized
  selection from left to right (each profile contributing its records, in template order,
  where it is first named); the written lines are the applied settings that no later
  applied setting for the same key follows.  Hence putting default in front of a selection
  does not change the output.
\<close>

theorem fillConfig_default_first:
  assumes "selected \<noteq> []"
  shows "fillConfig t selected =
           Inr (configHeader # map settingLine (keepLast (concat (map (profileSettings t)
                 (firstOccurrences (defaultProfileName #
                    (if hd selected = defaultProfileName then tl selected else selected)))))))
         \<and> fillConfig t (defaultProfileName # selected) = fillConfig t selected"
proof -
  have a: "fillConfig t selected =
           Inr (configHeader # map settingLine (keepLast (concat (map (profileSettings t)
                 (firstOccurrences (defaultProfileName #
                    (if hd selected = defaultProfileName then tl selected else selected)))))))"
    using assms by (simp add: fillConfig_eq appliedSettings_def effectiveOrder_def normalizeSelected_def)
  have "firstOccurrences (effectiveOrder (defaultProfileName # selected))
          = firstOccurrences (effectiveOrder selected)"
  proof (cases "hd selected = defaultProfileName")
    case True
    with assms obtain r where "selected = defaultProfileName # r" by (cases selected) auto
    then show ?thesis by (simp add: effectiveOrder_def normalizeSelected_def)
  next
    case False
    then show ?thesis by (simp add: effectiveOrder_def normalizeSelected_def)
  qed
  then have "fillConfig t (defaultProfileName # selected) = fillConfig t selected"
    using assms by (simp add: fillConfig_eq appliedSettings_def)
  with a show ?thesis by simp
qed

theorem fillConfig_default_first_witness:
  "[''bat''] \<noteq> []
   \<and> fillConfig tlpTemplate [''default'', ''bat''] = fillConfig tlpTemplate [''bat'']
   \<and> fillConfig tlpTemplate [''bat''] =
       Inr [configHeader, ''TLP_ENABLE=1'' @ [newline], ''CPU_SCALING=power'' @ [newline]]"
proof -
  have h: "[''bat''] \<noteq> ([] :: string list)" by simp
  from fillConfig_default_first[OF h, of tlpTemplate] h show ?thesis
    by (simp add: profileSettings_def tlpTemplate_def defaultProfileName_def settingLine_def)
qed

lemma keepLast_subset: "set (keepLast xs) \<subseteq> set xs"
  by (induction xs) auto

lemma keepLast_append:
  "keepLast (xs @ ys) = filter (\<lambda>x. key x \<notin> key ` set ys) (keepLast xs) @ keepLast ys"
  by (induction xs) auto

lemma last_entry_split:
  assumes "K \<in> key ` set xs"
  shows "\<exists>a b. xs = a @ last [s \<leftarrow> xs. key s = K] # b \<and> K \<notin> key ` set b"
proof -
  from assms have "\<exists>x \<in> set xs. key x = K" by auto
  from split_list_last_prop[OF this] obtain a e b where
    xs: "xs = a @ e # b" and e: "key e = K" and b: "\<forall>z \<in> set b. key z \<noteq> K" by blast
  from b have "[s \<leftarrow> b. key s = K] = []" by (simp add: filter_empty_conv)
  with xs e have "last [s \<leftarrow> xs. key s = K] = e" by simp
  with xs b show ?thesis by auto
qed

lemma tlp_scenario:
  "fillConfig tlpTemplate [''bat''] =
     Inr [configHeader, ''TLP_ENABLE=1'' @ [newline], ''CPU_SCALING=power'' @ [newline]]"
  by (simp add: fillConfig_eq effectiveOrder_def normalizeSelected_def appliedSettings_def
        profileSettings_def tlpTemplate_def defaultProfileName_def settingLine_def)

lemma tlp_scenario_text:
  "configString [configHeader, ''TLP_ENABLE=1'' @ [newline], ''CPU_SCALING=power'' @ [newline]]
     = ''# Generated by tcprofiles command'' @ [newline, newline]
         @ ''TLP_ENABLE=1'' @ [newline] @ ''CPU_SCALING=power'' @ [newline]"
  by (simp add: configString_def configHeader_def)

text \<open>
  Last write wins among the profiles as they are first named.  Let the selection be
  non-empty, let \<open>P2\<close> set the key \<open>K\<close>, and let no profile that is first named after \<open>P2\<close>
  in the effective application order set \<open>K\<close>.  Then the output has exactly one line for
  \<open>K\<close>; it carries the last setting of \<open>K\<close> in \<open>P2\<close>; and it stands where that last write
  stands: the lines after it are exactly the retained settings applied after that write,
  the lines before it are retained settings applied before it, and no earlier setting of
  \<open>K\<close> is written.  In the scenario of the specification, selecting bat yields exactly
  TLP_ENABLE=1 and CPU_SCALING=power.
\<close>

theorem fillConfig_last_write_wins:
  assumes "selected \<noteq> []"
    and "firstOccurrences (effectiveOrder selected) = before @ P2 # after"
    and "K \<in> key ` set (profileSettings t P2)"
    and "\<forall>Q \<in> set after. K \<notin> key ` set (profileSettings t Q)"
  shows "(\<exists>out pre post.
           fillConfig t selected = Inr (configHeader # map settingLine out)
         \<and> [s \<leftarrow> out. key s = K] = [last [s \<leftarrow> profileSettings t P2. key s = K]]
         \<and> appliedSettings t (effectiveOrder selected)
              = pre @ last [s \<leftarrow> profileSettings t P2. key s = K] # post
         \<and> K \<notin> key ` set post
         \<and> out = [x \<leftarrow> keepLast pre. key x \<noteq> K \<and> key x \<notin> key ` set post]
                   @ last [s \<leftarrow> profileSettings t P2. key s = K] # keepLast post)
       \<and> fillConfig tlpTemplate [''bat''] =
           Inr [configHeader, ''TLP_ENABLE=1'' @ [newline], ''CPU_SCALING=power'' @ [newline]]"
proof -
  define e where "e = last [s \<leftarrow> profileSettings t P2. key s = K]"
  from last_entry_split[OF assms(3)] obtain a b where
    ab: "profileSettings t P2 = a @ e # b" and b: "K \<notin> key ` set b" unfolding e_def by blast
  from assms(3) have "[s \<leftarrow> profileSettings t P2. key s = K] \<noteq> []"
    by (auto simp: filter_empty_conv)
  from last_in_set[OF this] have ke: "key e = K" unfolding e_def by simp
  define pre where "pre = concat (map (profileSettings t) before) @ a"
  define post where "post = b @ concat (map (profileSettings t) after)"
  define out where "out = keepLast (appliedSettings t (effectiveOrder selected))"
  have ap: "appliedSettings t (effectiveOrder selected) = pre @ e # post"
    by (simp add: appliedSettings_def assms(2) ab pre_def post_def)
  have kp: "K \<notin> key ` set post" using b assms(4) by (auto simp: post_def)
  have o: "out = [x \<leftarrow> keepLast pre. key x \<noteq> K \<and> key x \<notin> key ` set post] @ e # keepLast post"
    unfolding out_def ap using kp ke by (simp add: keepLast_append)
  have "[s \<leftarrow> keepLast post. key s = K] = []"
    using kp keepLast_subset[of post] by (auto simp: filter_empty_conv)
  moreover have "[s \<leftarrow> [x \<leftarrow> keepLast pre. key x \<noteq> K \<and> key x \<notin> key ` set post]. key s = K] = []"
    by (auto simp: filter_empty_conv)
  ultimately have f: "[s \<leftarrow> out. key s = K] = [e]" unfolding o using ke by simp
  have "fillConfig t selected = Inr (configHeader # map settingLine out)"
    unfolding out_def using assms(1) by (rule fillConfig_eq)
  with f ap kp o have "\<exists>out pre post.
           fillConfig t selected = Inr (configHeader # map settingLine out)
         \<and> [s \<leftarrow> out. key s = K] = [e]
         \<and> appliedSettings t (effectiveOrder selected) = pre @ e # post
         \<and> K \<notin> key ` set post
         \<and> out = [x \<leftarrow> keepLast pre. key x \<noteq> K \<and> key x \<notin> key ` set post] @ e # keepLast post"
    by blast
  then show ?thesis unfolding e_def using tlp_scenario by simp
qed

theorem fillConfig_last_write_wins_witness:
  "[''bat''] \<noteq> []
   \<and> firstOccurrences (effectiveOrder [''bat'']) = [''default''] @ ''bat'' # []
   \<and> ''TLP_ENABLE'' \<in> key ` set (profileSettings tlpTemplate ''bat'')
   \<and> (\<exists>out. fillConfig tlpTemplate [''bat''] = Inr (configHeader # map settingLine out)
         \<and> [s \<leftarrow> out. key s = ''TLP_ENABLE''] = [\<lparr>key = ''TLP_ENABLE'', val = ''1''\<rparr>])"
proof -
  have h1: "[''bat''] \<noteq> ([] :: string list)" by simp
  have h2: "firstOccurrences (effectiveOrder [''bat'']) = [''default''] @ ''bat'' # []"
    by (simp add: effectiveOrder_def normalizeSelected_def defaultProfileName_def)
  have h3: "''TLP_ENABLE'' \<in> key ` set (profileSettings tlpTemplate ''bat'')"
    by (simp add: profileSettings_def tlpTemplate_def)
  have h4: "\<forall>Q \<in> set []. ''TLP_ENABLE'' \<notin> key ` set (profileSettings tlpTemplate Q)" by simp
  have l: "last [s \<leftarrow> profileSettings tlpTemplate ''bat''. key s = ''TLP_ENABLE'']
             = \<lparr>key = ''TLP_ENABLE'', val = ''1''\<rparr>"
    by (simp add: profileSettings_def tlpTemplate_def)
  from fillConfig_last_write_wins[OF h1 h2 h3 h4] obtain out where
    o: "fillConfig tlpTemplate [''bat''] = Inr (configHeader # map settingLine out)"
       "[s \<leftarrow> out. key s = ''TLP_ENABLE'']
          = [last [s \<leftarrow> profileSettings tlpTemplate ''bat''. key s = ''TLP_ENABLE'']]"
    by blast
  from o(2) have "[s \<leftarrow> out. key s = ''TLP_ENABLE''] = [\<lparr>key = ''TLP_ENABLE'', val = ''1''\<rparr>]"
    unfolding l .
  with o(1) have "\<exists>out. fillConfig tlpTemplate [''bat''] = Inr (configHeader # map settingLine out)
         \<and> [s \<leftarrow> out. key s = ''TLP_ENABLE''] = [\<lparr>key = ''TLP_ENABLE'', val = ''1''\<rparr>]"
    by blast
  with h1 h2 h3 show ?thesis by blast
qed

text \<open>
  Claim C1: when two profiles set a key, the value of the one applied later is written.
  The code breaks this for a selection that names a profile again after another one.  The
  template below is what the parser returns for the four lines [a], K=1, [b], K=2, and the
  selection a, b, a passes \<open>parseInput\<close>.  The effective order is default, a, b, a; both a
  and b set \<open>K\<close>, and a is applied after b; the usage text of the program says that
  profiles are applied one by one from left to right and that settings from the last
  override those from the first.  Yet the output carries the value of b: the records of a
  were cut out of the cache when a was first applied, so its second application finds
  nothing.
\<close>

theorem fillConfig_reselected_profile:
  "parseTemplate (''[a]'' @ [newline] @ ''K=1'' @ [newline] @ ''[b]'' @ [newline] @ ''K=2'' @ [newline])
     = Inr abTemplate
   \<and> parseInput [''use'', ''a'', ''b'', ''a''] = Selected [''a'', ''b'', ''a'']
   \<and> effectiveOrder [''a'', ''b'', ''a''] = [''default'', ''a'', ''b'', ''a'']
   \<and> profileSettings abTemplate ''b'' = [\<lparr>key = ''K'', val = ''2''\<rparr>]
   \<and> profileSettings abTemplate ''a'' = [\<lparr>key = ''K'', val = ''1''\<rparr>]
   \<and> fillConfig abTemplate [''a'', ''b'', ''a''] = Inr [configHeader, ''K=2'' @ [newline]]
   \<and> fillConfig abTemplate [''a'', ''b'', ''a''] \<noteq> Inr [configHeader, ''K=1'' @ [newline]]"
proof -
  have "parseTemplate (''[a]'' @ [newline] @ ''K=1'' @ [newline] @ ''[b]'' @ [newline] @ ''K=2'' @ [newline])
          = Inr abTemplate"
    by code_simp
  moreover have "parseInput [''use'', ''a'', ''b'', ''a''] = Selected [''a'', ''b'', ''a'']"
    by code_simp
  moreover have "effectiveOrder [''a'', ''b'', ''a''] = [''default'', ''a'', ''b'', ''a'']
      \<and> profileSettings abTemplate ''b'' = [\<lparr>key = ''K'', val = ''2''\<rparr>]
      \<and> profileSettings abTemplate ''a'' = [\<lparr>key = ''K'', val = ''1''\<rparr>]
      \<and> fillConfig abTemplate [''a'', ''b'', ''a''] = Inr [configHeader, ''K=2'' @ [newline]]
      \<and> fillConfig abTemplate [''a'', ''b'', ''a''] \<noteq> Inr [configHeader, ''K=1'' @ [newline]]"
    by (simp add: fillConfig_eq effectiveOrder_def normalizeSelected_def appliedSettings_def
          profileSettings_def abTemplate_def defaultProfileName_def settingLine_def)
  ultimately show ?thesis by blast
qed

section \<open>Input parsing\<close>

lemma lastIndexFrom_pos:
  "0 < lastIndexFrom s v n \<longleftrightarrow> (\<exists>i. 0 < i \<and> i \<le> n \<and> s ! i = v)"
proof (induction n)
  case 0 then show ?case by simp
next
  case (Suc n)
  show ?case
  proof (cases "v = s ! Suc n")
    case True then show ?thesis by auto
  next
    case False
    have "(\<exists>i. 0 < i \<and> i \<le> Suc n \<and> s ! i = v) \<longleftrightarrow> (\<exists>i. 0 < i \<and> i \<le> n \<and> s ! i = v)"
      using False by (metis le_Suc_eq le_SucI)
    with False Suc show ?thesis by simp
  qed
qed

text \<open>
  Claim C4.  For every non-empty selection given after \<^verbatim>\<open>use\<close>: if default stands at any
  position other than the first (whether or not it also stands first), \<open>parseInput\<close>
  rejects the selection with an error; otherwise, in particular when default is the sole
  or the first entry only, the selection is accepted and returned unchanged.
\<close>

theorem parseInput_default_position:
  assumes "selection \<noteq> []"
  shows "((\<exists>i. 0 < i \<and> i < length selection \<and> selection ! i = ''default'')
            \<longrightarrow> parseInput (''use'' # selection) = InputError (DefaultNotFirst selection))
       \<and> (\<not> (\<exists>i. 0 < i \<and> i < length selection \<and> selection ! i = ''default'')
            \<longrightarrow> parseInput (''use'' # selection) = Selected selection)"
proof -
  have "(\<exists>i. 0 < i \<and> i \<le> length selection - 1 \<and> selection ! i = ''default'')
          \<longleftrightarrow> (\<exists>i. 0 < i \<and> i < length selection \<and> selection ! i = ''default'')"
    using assms by (auto simp: less_eq_Suc_le)
  then have L: "0 < lastIndexFrom selection ''default'' (length selection - 1)
          \<longleftrightarrow> (\<exists>i. 0 < i \<and> i < length selection \<and> selection ! i = ''default'')"
    by (simp only: lastIndexFrom_pos)
  show ?thesis
  proof (cases "\<exists>i. 0 < i \<and> i < length selection \<and> selection ! i = ''default''")
    case True
    with L have "0 < lastIndexFrom selection ''default'' (length selection - 1)" by simp
    with True assms show ?thesis
      by (simp add: parseInput_def lastIndex_def defaultProfileName_def)
  next
    case False
    with L have "\<not> 0 < lastIndexFrom selection ''default'' (length selection - 1)" by simp
    with False assms show ?thesis
      by (simp add: parseInput_def lastIndex_def defaultProfileName_def)
  qed
qed

theorem parseInput_default_position_witness:
  "[''bat'', ''default''] \<noteq> [] \<and> [''default'', ''bat''] \<noteq> []
   \<and> parseInput [''use'', ''bat'', ''default''] = InputError (DefaultNotFirst [''bat'', ''default''])
   \<and> parseInput [''use'', ''default'', ''bat''] = Selected [''default'', ''bat'']"
proof -
  have h1: "[''bat'', ''default''] \<noteq> ([] :: string list)" by simp
  have h2: "[''default'', ''bat''] \<noteq> ([] :: string list)" by simp
  have e1: "\<exists>i. 0 < i \<and> i < length [''bat'', ''default''] \<and> [''bat'', ''default''] ! i = ''default''"
    by (rule exI[of _ 1]) simp
  have e2: "\<not> (\<exists>i. 0 < i \<and> i < length [''default'', ''bat''] \<and> [''default'', ''bat''] ! i = ''default'')"
    by (auto simp: less_Suc_eq)
  from parseInput_default_position[OF h1] e1 parseInput_default_position[OF h2] e2 h1 h2
  show ?thesis by blast
qed

section \<open>Profile listing\<close>

lemma fold_insert_set: "set (fold (\<lambda>sl ps. List.insert (profile sl) ps) sls acc) = profile ` set sls \<union> set acc"
  by (induction sls arbitrary: acc) auto

lemma fold_insert_distinct: "distinct acc \<Longrightarrow> distinct (fold (\<lambda>sl ps. List.insert (profile sl) ps) sls acc)"
  by (induction sls arbitrary: acc) auto

lemma fold_snoc: "fold (\<lambda>p psArr. psArr @ [p]) xs acc = acc @ xs"
  by (induction xs arbitrary: acc) auto

text \<open>
  Claim C8.  Whatever order the map is ranged in, \<open>getProfiles\<close> returns default followed by
  the other profile names of the template in strictly ascending bytewise order: the list
  has no duplicates, default is its first element also when no record is tagged default,
  and its elements are default and the profiles of the template.
\<close>

theorem getProfiles_sorted:
  assumes "\<And>ks. distinct ks \<Longrightarrow> distinct (rangeOrder ks) \<and> set (rangeOrder ks) = set ks"
  shows "getProfiles rangeOrder sls
           = ''default'' # sorted_list_of_set (profile ` set sls - {''default''})
       \<and> distinct (getProfiles rangeOrder sls)
       \<and> set (getProfiles rangeOrder sls) = insert ''default'' (profile ` set sls)
       \<and> sorted_wrt (<) (tl (getProfiles rangeOrder sls))"
proof -
  define ks where "ks = removeAll ''default'' (fold (\<lambda>sl ps. List.insert (profile sl) ps) sls [])"
  have d: "distinct ks" unfolding ks_def by (simp add: fold_insert_distinct distinct_removeAll)
  have s: "set ks = profile ` set sls - {''default''}" unfolding ks_def by (simp add: fold_insert_set)
  from assms[OF d] have r: "distinct (rangeOrder ks)" "set (rangeOrder ks) = set ks" by simp_all
  have "sort (rangeOrder ks) = sorted_list_of_set (set (rangeOrder ks))"
    using r(1) by (simp add: sorted_list_of_set_sort_remdups distinct_remdups_id)
  then have g: "getProfiles rangeOrder sls = ''default'' # sorted_list_of_set (profile ` set sls - {''default''})"
    using r(2) s by (simp add: getProfiles_def ks_def[symmetric] defaultProfileName_def fold_snoc Let_def)
  have f: "finite (profile ` set sls - {''default''})" by simp
  show ?thesis unfolding g using f by auto
qed

theorem getProfiles_sorted_witness:
  "getProfiles rev sampleTemplate = [''default'', ''ac'', ''bat'']"
proof -
  have h: "\<And>ks :: string list. distinct ks \<Longrightarrow> distinct (rev ks) \<and> set (rev ks) = set ks" by simp
  have "sorted_list_of_set (profile ` set sampleTemplate - {''default''}) = [''ac'', ''bat'']"
    by code_simp
  with getProfiles_sorted[of rev sampleTemplate, OF h] show ?thesis
    by simp
qed

section \<open>The template parser\<close>

lemma runePrefix_Nil: "runePrefix encs [] = 0"
proof -
  have "find (\<lambda>e. e \<noteq> [] \<and> prefix e []) encs = None" by (induction encs) auto
  then show ?thesis by (simp add: runePrefix_def)
qed

lemma trimPrefix_Nil: "trimPrefix encs [] = []"
  by (subst trimPrefix.simps) (simp add: runePrefix_Nil)

lemma TrimSpace_Nil: "TrimSpace [] = []"
  by (simp add: TrimSpace_def trimPrefix_Nil)

lemma set_trimPrefix: "set (trimPrefix encs s) \<subseteq> set s"
proof (induction encs s rule: trimPrefix.induct)
  case (1 encs s)
  show ?case
  proof (cases "runePrefix encs s = 0")
    case True then show ?thesis by (subst trimPrefix.simps) simp
  next
    case False
    from "1.IH"[OF False] have "set (trimPrefix encs (drop (runePrefix encs s) s)) \<subseteq> set s"
      using set_drop_subset by fast
    with False show ?thesis by (subst trimPrefix.simps) simp
  qed
qed

lemma set_TrimSpace: "set (TrimSpace s) \<subseteq> set s"
  using set_trimPrefix[of "map rev spaceRunes" "rev (trimPrefix spaceRunes s)"]
        set_trimPrefix[of spaceRunes s]
  by (auto simp: TrimSpace_def)

lemma trimRight_newline:
  "trimPrefix (map rev spaceRunes) (newline # y) = trimPrefix (map rev spaceRunes) y"
proof -
  have "runePrefix (map rev spaceRunes) (newline # y) = 1"
    by (simp add: runePrefix_def spaceRunes_def newline_def)
  then show ?thesis by (subst trimPrefix.simps) simp
qed

lemma spaceRune_snoc_newline: "e \<in> set spaceRunes \<Longrightarrow> e = s @ [newline] \<Longrightarrow> s = []"
  by (auto simp: spaceRunes_def newline_def append_eq_Cons_conv Cons_eq_append_conv)

lemma runePrefix_snoc_newline:
  assumes "s \<noteq> []"
  shows "runePrefix spaceRunes (s @ [newline]) = runePrefix spaceRunes s"
proof -
  have "find (\<lambda>e. e \<noteq> [] \<and> prefix e (s @ [newline])) spaceRunes
          = find (\<lambda>e. e \<noteq> [] \<and> prefix e s) spaceRunes"
  proof (rule find_cong[OF refl])
    fix e assume "e \<in> set spaceRunes"
    with assms spaceRune_snoc_newline[of e s] have "e \<noteq> s @ [newline]" by blast
    then show "(e \<noteq> [] \<and> prefix e (s @ [newline])) = (e \<noteq> [] \<and> prefix e s)" by simp
  qed
  then show ?thesis by (simp add: runePrefix_def)
qed

lemma runePrefix_le: "runePrefix encs s \<le> length s"
  by (auto simp: runePrefix_def find_Some_iff prefix_length_le split: option.splits)

lemma trimLeft_snoc_newline:
  "trimPrefix spaceRunes (s @ [newline])
     = (if trimPrefix spaceRunes s = [] then [] else trimPrefix spaceRunes s @ [newline])"
proof (induction spaceRunes s rule: trimPrefix.induct)
  case (1 s)
  show ?case
  proof (cases "s = []")
    case True
    have "runePrefix spaceRunes [newline] = 1"
      by (simp add: runePrefix_def spaceRunes_def newline_def)
    then have "trimPrefix spaceRunes [newline] = []"
      by (subst trimPrefix.simps) (simp add: trimPrefix_Nil)
    with True show ?thesis by (simp add: trimPrefix_Nil)
  next
    case False
    note rp = runePrefix_snoc_newline[OF False]
    show ?thesis
    proof (cases "runePrefix spaceRunes s = 0")
      case True
      then have "trimPrefix spaceRunes s = s" by (subst trimPrefix.simps) simp
      moreover from True rp have "trimPrefix spaceRunes (s @ [newline]) = s @ [newline]"
        by (subst trimPrefix.simps) simp
      ultimately show ?thesis using False by simp
    next
      case nz: False
      have "trimPrefix spaceRunes (s @ [newline])
              = trimPrefix spaceRunes (drop (runePrefix spaceRunes s) s @ [newline])"
        using nz rp runePrefix_le[of spaceRunes s] by (subst trimPrefix.simps) simp
      moreover have "trimPrefix spaceRunes s = trimPrefix spaceRunes (drop (runePrefix spaceRunes s) s)"
        using nz by (subst trimPrefix.simps) simp
      ultimately show ?thesis using "1.hyps"[OF nz] by simp
    qed
  qed
qed

lemma TrimSpace_snoc_newline: "TrimSpace (s @ [newline]) = TrimSpace s"
  by (simp add: TrimSpace_def trimLeft_snoc_newline trimPrefix_Nil trimRight_newline)

lemma readLine_noeol: "newline \<notin> set raw \<Longrightarrow> readLine raw = raw"
  by (simp add: readLine_def)

lemma readLine_eol:
  assumes "newline \<notin> set raw"
  shows "readLine (raw @ newline # rest) = raw @ [newline]"
proof -
  have "takeWhile (\<lambda>c. c \<noteq> newline) (raw @ newline # rest)
          = raw @ takeWhile (\<lambda>c. c \<noteq> newline) (newline # rest)"
    by (rule takeWhile_append2) (use assms in auto)
  then show ?thesis by (simp add: readLine_def)
qed

lemma readRest_eol: "newline \<notin> set raw \<Longrightarrow> readRest (raw @ newline # rest) = rest"
  by (simp add: readRest_def readLine_eol)

lemma readEOF_eol: "\<not> readEOF (raw @ newline # rest)"
  by (simp add: readEOF_def)

lemma parseLoop_Nil: "parseLoop c n acc [] = Inr acc"
  by (subst parseLoop.simps) (simp add: readEOF_def readLine_def TrimSpace_Nil)

lemma parseLoop_eol:
  assumes "newline \<notin> set raw"
  shows "parseLoop c n acc (raw @ newline # rest) =
           (case lineStep c (n + 1) acc raw of
              Inl e \<Rightarrow> Inl e
            | Inr (c', acc') \<Rightarrow> parseLoop c' (n + 1) acc' rest)"
  by (subst parseLoop.simps)
     (simp add: readLine_eol[OF assms] readRest_eol[OF assms] readEOF_eol TrimSpace_snoc_newline
        lineStep_def Let_def split: option.splits)

lemma parseLoop_last:
  assumes "newline \<notin> set raw"
  shows "parseLoop c n acc raw =
           (case lineStep c (n + 1) acc raw of
              Inl e \<Rightarrow> Inl e
            | Inr (c', acc') \<Rightarrow> Inr acc')"
  using assms
  by (subst parseLoop.simps)
     (simp add: readLine_noeol readEOF_def lineStep_def Let_def split: option.splits)

lemma text_cases:
  obtains (last) "newline \<notin> set t"
        | (eol) raw rest where "t = raw @ newline # rest" "newline \<notin> set raw"
  using split_list_first[of newline t] by blast

lemma parseLoop_snoc_newline: "parseLoop c n acc (t @ [newline]) = parseLoop c n acc t"
proof (induction "length t" arbitrary: t c n acc rule: less_induct)
  case less
  show ?case
  proof (cases t rule: text_cases)
    case last
    have "parseLoop c n acc (t @ [newline]) =
            (case lineStep c (n + 1) acc t of Inl e \<Rightarrow> Inl e
             | Inr (c', acc') \<Rightarrow> parseLoop c' (n + 1) acc' [])"
      using parseLoop_eol[OF last, of c n acc "[]"] by simp
    then show ?thesis
      by (simp add: parseLoop_last[OF last] parseLoop_Nil split: sum.splits)
  next
    case (eol raw rest)
    have "parseLoop c' n' acc' (rest @ [newline]) = parseLoop c' n' acc' rest" for c' n' acc'
      using less[of rest] eol(1) by simp
    then show ?thesis
      using parseLoop_eol[OF eol(2), of c n acc "rest @ [newline]"]
            parseLoop_eol[OF eol(2), of c n acc rest] eol(1)
      by (simp split: sum.splits)
  qed
qed

lemma lineStep_acc_prefix: "lineStep c n acc raw = Inr (c', acc') \<Longrightarrow> prefix acc acc'"
  by (auto simp: lineStep_def Let_def split: if_splits option.splits)

lemma parseLoop_prefix: "parseLoop c n acc t = Inr res \<Longrightarrow> prefix acc res"
proof (induction "length t" arbitrary: t c n acc rule: less_induct)
  case less
  show ?case
  proof (cases t rule: text_cases)
    case last
    with less.prems show ?thesis
      by (auto simp: parseLoop_last split: sum.splits dest: lineStep_acc_prefix)
  next
    case (eol raw rest)
    from less.prems obtain c' acc' where
      s: "lineStep c (n + 1) acc raw = Inr (c', acc')" and r: "parseLoop c' (n + 1) acc' rest = Inr res"
      by (auto simp: eol(1) parseLoop_eol[OF eol(2)] split: sum.splits)
    from less.hyps[of rest, OF _ r] eol(1) have "prefix acc' res" by simp
    with lineStep_acc_prefix[OF s] show ?thesis by (rule prefix_order.trans)
  qed
qed

lemma lineStep_OK:
  "lineOK raw \<Longrightarrow>
     \<exists>acc'. lineStep c n acc raw = Inr (profileAfter c [raw], acc')"
  by (auto simp: lineOK_def lineStep_def profileAfter_def sectionRegex_def Let_def split: list.splits)

lemma parseLoop_good_lines:
  assumes "\<forall>l \<in> set good. newline \<notin> set l \<and> lineOK l"
  shows "\<exists>acc'. \<forall>more. parseLoop c n acc (joinLines good @ more)
                    = parseLoop (profileAfter c good) (n + length good) acc' more"
  using assms
proof (induction good arbitrary: c n acc)
  case Nil
  then show ?case by (auto simp: joinLines_def profileAfter_def)
next
  case (Cons l good)
  from Cons.prems have nl: "newline \<notin> set l" and ok: "lineOK l" by auto
  from lineStep_OK[OF ok, of c "n + 1" acc] obtain acc1 where
    s: "lineStep c (n + 1) acc l = Inr (profileAfter c [l], acc1)" by blast
  from Cons.IH[of "profileAfter c [l]" "n + 1" acc1] Cons.prems obtain acc' where
    ih: "\<forall>more. parseLoop (profileAfter c [l]) (n + 1) acc1 (joinLines good @ more)
             = parseLoop (profileAfter (profileAfter c [l]) good) (n + 1 + length good) acc' more"
    by auto
  have "parseLoop c n acc (joinLines (l # good) @ more)
          = parseLoop (profileAfter c (l # good)) (n + length (l # good)) acc' more" for more
  proof -
    have "joinLines (l # good) @ more = l @ newline # (joinLines good @ more)"
      by (simp add: joinLines_def)
    then show ?thesis
      using parseLoop_eol[OF nl, of c n acc "joinLines good @ more"] s ih
      by (simp add: profileAfter_def)
  qed
  then show ?case by blast
qed

lemma wordChar_eq [simp]: "\<not> wordChar CHR ''=''"
  by (simp add: wordChar_def)

lemma keyValRegex_Some:
  assumes "k \<noteq> []" "list_all wordChar k" "v \<noteq> []" "newline \<notin> set v"
  shows "keyValRegex (k @ CHR ''='' # v) = Some (k, v)"
proof -
  from assms(2) have "takeWhile wordChar (k @ CHR ''='' # v) = k"
    by (simp add: takeWhile_append2 list_all_iff)
  moreover from assms(2) have "dropWhile wordChar (k @ CHR ''='' # v) = CHR ''='' # v"
    by (simp add: dropWhile_append2 list_all_iff)
  ultimately show ?thesis using assms by (simp add: keyValRegex_def)
qed

lemma keyValRegex_SomeD:
  assumes "keyValRegex line = Some (k, v)"
  shows "line = k @ CHR ''='' # v \<and> k \<noteq> [] \<and> list_all wordChar k \<and> v \<noteq> [] \<and> newline \<notin> set v"
proof -
  from assms have k: "k = takeWhile wordChar line" and d: "dropWhile wordChar line = CHR ''='' # v"
    and r: "k \<noteq> []" "v \<noteq> []" "newline \<notin> set v"
    by (auto simp: keyValRegex_def Let_def split: list.splits if_splits)
  have "line = takeWhile wordChar line @ dropWhile wordChar line" by simp
  with k d have "line = k @ CHR ''='' # v" by simp
  moreover have "list_all wordChar k" unfolding k list_all_iff by (auto dest: set_takeWhileD)
  ultimately show ?thesis using r by simp
qed

lemma sectionRegex_iff:
  "newline \<notin> set line \<Longrightarrow> sectionRegex line \<longleftrightarrow> (\<exists>p. line = CHR ''['' # p @ '']'')"
proof
  assume n: "newline \<notin> set line" and s: "sectionRegex line"
  then obtain cs where l: "line = CHR ''['' # cs" "cs \<noteq> []" "last cs = CHR '']''"
    by (auto simp: sectionRegex_def split: list.splits)
  then have "cs = butlast cs @ '']''" by (metis append_butlast_last_id)
  with l show "\<exists>p. line = CHR ''['' # p @ '']''" by blast
next
  assume n: "newline \<notin> set line" and "\<exists>p. line = CHR ''['' # p @ '']''"
  then show "sectionRegex line" by (auto simp: sectionRegex_def)
qed

lemma currentProfile_no_section:
  "\<forall>l \<in> set ls. \<not> sectionRegex (TrimSpace l) \<Longrightarrow> profileAfter c ls = c"
  unfolding profileAfter_def by (induction ls arbitrary: c) auto

lemma lineOK_ex1: "lineOK ''# comment''" by code_simp
lemma lineOK_ex2: "lineOK ''[bat]''" by code_simp
lemma TrimSpace_ex: "TrimSpace ''  CPU=a=b '' = ''CPU=a=b''" by code_simp

lemma lineOK_ex3: "lineOK ''TLP=1''" by code_simp
lemma TrimSpace_ex2: "TrimSpace '' [ba-t]'' = CHR ''['' # ''ba-t'' @ '']''" by code_simp
lemma TrimSpace_ex3: "TrimSpace ''oops '' = ''oops''" by code_simp

text \<open>
  Claim C5.  Let the lines before a line be accepted lines, and let the line, stripped of
  white space, be \<open>k=v\<close> with \<open>k\<close> one or more word characters and \<open>v\<close> the non-empty rest
  after the first equals sign (\<open>v\<close> may hold equals signs).  Then the parser records the
  setting with key \<open>k\<close> and value \<open>v\<close>, tagged with the current profile, right after the
  records of the earlier lines: when the line is the last one the result ends with it, and
  when more lines follow every successful result begins with the earlier records and it.
  The current profile is default when no section header stands before the line.
\<close>

theorem parseTemplate_records_setting:
  assumes "\<forall>l \<in> set before. newline \<notin> set l \<and> lineOK l"
    and "newline \<notin> set raw"
    and "TrimSpace raw = k @ CHR ''='' # v"
    and "k \<noteq> []" and "list_all wordChar k" and "v \<noteq> []"
  shows "\<exists>acc.
           parseTemplate (joinLines before @ raw)
             = Inr (acc @ [\<lparr>profile = currentProfile before, setting = \<lparr>key = k, val = v\<rparr>\<rparr>])
         \<and> (\<forall>rest res. parseTemplate (joinLines before @ raw @ newline # rest) = Inr res
               \<longrightarrow> prefix (acc @ [\<lparr>profile = currentProfile before, setting = \<lparr>key = k, val = v\<rparr>\<rparr>]) res)
         \<and> ((\<forall>l \<in> set before. \<not> sectionRegex (TrimSpace l)) \<longrightarrow> currentProfile before = ''default'')"
proof -
  let ?c = "currentProfile before"
  let ?r = "\<lparr>profile = ?c, setting = \<lparr>key = k, val = v\<rparr>\<rparr>"
  from parseLoop_good_lines[OF assms(1), of defaultProfileName 0 "[]"] obtain acc where
    g: "\<And>more. parseTemplate (joinLines before @ more) = parseLoop ?c (length before) acc more"
    by (auto simp: parseTemplate_def currentProfile_def)
  have nv: "newline \<notin> set v"
    using set_TrimSpace[of raw] assms(2,3) by auto
  have line: "TrimSpace raw \<noteq> []" "hd (TrimSpace raw) \<noteq> CHR ''#''" "\<not> sectionRegex (TrimSpace raw)"
    using assms(3,4,5) by (cases k; auto simp: sectionRegex_def wordChar_def)+
  have step: "lineStep c n a raw = Inr (c, a @ [\<lparr>profile = c, setting = \<lparr>key = k, val = v\<rparr>\<rparr>])" for c n a
    using line keyValRegex_Some[OF assms(4,5,6) nv] assms(3) by (simp add: lineStep_def)
  have a: "parseTemplate (joinLines before @ raw) = Inr (acc @ [?r])"
    by (simp add: g parseLoop_last[OF assms(2)] step)
  have b: "prefix (acc @ [?r]) res" if "parseTemplate (joinLines before @ raw @ newline # rest) = Inr res"
    for rest res
  proof -
    from that have "parseLoop ?c (length before + 1) (acc @ [?r]) rest = Inr res"
      by (simp add: g parseLoop_eol[OF assms(2)] step)
    then show ?thesis by (rule parseLoop_prefix)
  qed
  have c: "(\<forall>l \<in> set before. \<not> sectionRegex (TrimSpace l)) \<longrightarrow> ?c = ''default''"
    by (auto simp: currentProfile_def currentProfile_no_section defaultProfileName_def)
  from a b c show ?thesis by blast
qed

theorem parseTemplate_records_setting_witness:
  "TrimSpace ''  CPU=a=b '' = ''CPU'' @ CHR ''='' # ''a=b''
   \<and> (\<exists>acc. parseTemplate (''# comment'' @ [newline] @ ''[bat]'' @ [newline] @ ''  CPU=a=b '')
          = Inr (acc @ [\<lparr>profile = ''bat'', setting = \<lparr>key = ''CPU'', val = ''a=b''\<rparr>\<rparr>]))"
proof -
  have h1: "\<forall>l \<in> set [''# comment'', ''[bat]'']. newline \<notin> set l \<and> lineOK l"
    by (simp add: lineOK_ex1 lineOK_ex2 newline_def)
  have h2: "newline \<notin> set ''  CPU=a=b ''" by (simp add: newline_def)
  have h3: "TrimSpace ''  CPU=a=b '' = ''CPU'' @ CHR ''='' # ''a=b''" by (simp add: TrimSpace_ex)
  have h4: "''CPU'' \<noteq> []" by simp
  have h5: "list_all wordChar ''CPU''" by (simp add: wordChar_def)
  have h6: "''a=b'' \<noteq> []" by simp
  have c: "currentProfile [''# comment'', ''[bat]''] = ''bat''" by code_simp
  have j: "joinLines [''# comment'', ''[bat]''] @ ''  CPU=a=b ''
             = ''# comment'' @ [newline] @ ''[bat]'' @ [newline] @ ''  CPU=a=b ''"
    by (simp add: joinLines_def)
  from parseTemplate_records_setting[OF h1 h2 h3 h4 h5 h6] obtain acc where
    "parseTemplate (joinLines [''# comment'', ''[bat]''] @ ''  CPU=a=b '')
          = Inr (acc @ [\<lparr>profile = currentProfile [''# comment'', ''[bat]''],
                         setting = \<lparr>key = ''CPU'', val = ''a=b''\<rparr>\<rparr>])"
    by blast
  then have "\<exists>acc. parseTemplate (''# comment'' @ [newline] @ ''[bat]'' @ [newline] @ ''  CPU=a=b '')
          = Inr (acc @ [\<lparr>profile = ''bat'', setting = \<lparr>key = ''CPU'', val = ''a=b''\<rparr>\<rparr>])"
    unfolding c j by blast
  with h3 show ?thesis by blast
qed

text \<open>
  Claim C6.  Let the lines before line number \<open>length before + 1\<close> be accepted lines.  If
  that line, stripped, is bracket-delimited and the name between the brackets is not made
  of one or more letters, digits and underscores, parsing fails with an error that carries
  the name and the line number.  If the line is not blank, no comment, not
  bracket-delimited and no \<open>key=value\<close> pair, parsing fails with an error that carries the
  line number and the content of the line (as stripped).  Both hold whether or not the line
  ends the input, and in both cases no template is returned.
\<close>

theorem parseTemplate_malformed:
  assumes "\<forall>l \<in> set before. newline \<notin> set l \<and> lineOK l"
    and "newline \<notin> set raw"
  shows "(TrimSpace raw = CHR ''['' # p @ '']'' \<and> \<not> (p \<noteq> [] \<and> list_all wordChar p)
            \<longrightarrow> parseTemplate (joinLines before @ raw)
                  = Inl (MalformedSectionName p (length before + 1))
              \<and> parseTemplate (joinLines before @ raw @ newline # rest)
                  = Inl (MalformedSectionName p (length before + 1)))
       \<and> (TrimSpace raw \<noteq> [] \<and> hd (TrimSpace raw) \<noteq> CHR ''#''
            \<and> \<not> (\<exists>q. TrimSpace raw = CHR ''['' # q @ '']'')
            \<and> \<not> (\<exists>k v. TrimSpace raw = k @ CHR ''='' # v \<and> k \<noteq> [] \<and> list_all wordChar k \<and> v \<noteq> [])
            \<longrightarrow> parseTemplate (joinLines before @ raw)
                  = Inl (MalformedLine (length before + 1) (TrimSpace raw))
              \<and> parseTemplate (joinLines before @ raw @ newline # rest)
                  = Inl (MalformedLine (length before + 1) (TrimSpace raw)))"
proof -
  from parseLoop_good_lines[OF assms(1), of defaultProfileName 0 "[]"] obtain acc where
    g: "\<And>more. parseTemplate (joinLines before @ more)
           = parseLoop (currentProfile before) (length before) acc more"
    by (auto simp: parseTemplate_def currentProfile_def)
  have nl: "newline \<notin> set (TrimSpace raw)" using set_TrimSpace[of raw] assms(2) by auto
  have s: "lineStep c n a raw = Inl (MalformedSectionName p n)"
    if "TrimSpace raw = CHR ''['' # p @ '']''" "\<not> (p \<noteq> [] \<and> list_all wordChar p)" for c n a
  proof -
    from that(1) nl have "sectionRegex (TrimSpace raw)" by (simp add: sectionRegex_iff)
    with that show ?thesis by (simp add: lineStep_def validSectionNameRegex_def)
  qed
  have m: "lineStep c n a raw = Inl (MalformedLine n (TrimSpace raw))"
    if "TrimSpace raw \<noteq> []" "hd (TrimSpace raw) \<noteq> CHR ''#''"
       "\<not> (\<exists>q. TrimSpace raw = CHR ''['' # q @ '']'')"
       "\<not> (\<exists>k v. TrimSpace raw = k @ CHR ''='' # v \<and> k \<noteq> [] \<and> list_all wordChar k \<and> v \<noteq> [])"
    for c n a
  proof -
    from that(3) nl have ns: "\<not> sectionRegex (TrimSpace raw)" by (simp add: sectionRegex_iff)
    have "keyValRegex (TrimSpace raw) = None"
    proof (cases "keyValRegex (TrimSpace raw)")
      case None then show ?thesis .
    next
      case (Some kv)
      obtain k v where "kv = (k, v)" by (cases kv)
      with Some keyValRegex_SomeD[of "TrimSpace raw" k v] that(4) show ?thesis by blast
    qed
    with that(1,2) ns show ?thesis by (simp add: lineStep_def)
  qed
  show ?thesis
    by (auto simp: g parseLoop_last[OF assms(2)] parseLoop_eol[OF assms(2)] s m)
qed

theorem parseTemplate_malformed_witness:
  "parseTemplate (''TLP=1'' @ [newline] @ '' [ba-t]'') = Inl (MalformedSectionName ''ba-t'' 2)
   \<and> parseTemplate (''TLP=1'' @ [newline] @ ''oops '' @ [newline] @ ''A=1'') = Inl (MalformedLine 2 ''oops'')"
proof -
  have h1: "\<forall>l \<in> set [''TLP=1'']. newline \<notin> set l \<and> lineOK l"
    by (simp add: lineOK_ex3 newline_def)
  have h2: "newline \<notin> set '' [ba-t]''" by (simp add: newline_def)
  have h3: "newline \<notin> set ''oops ''" by (simp add: newline_def)
  have a: "TrimSpace '' [ba-t]'' = CHR ''['' # ''ba-t'' @ '']'' \<and> \<not> (''ba-t'' \<noteq> [] \<and> list_all wordChar ''ba-t'')"
    by (simp add: TrimSpace_ex2 wordChar_def)
  have "\<not> (\<exists>k v. ''oops'' = k @ CHR ''='' # v \<and> k \<noteq> [] \<and> list_all wordChar k \<and> v \<noteq> [])"
  proof
    assume "\<exists>k v. ''oops'' = k @ CHR ''='' # v \<and> k \<noteq> [] \<and> list_all wordChar k \<and> v \<noteq> []"
    then obtain k v where "''oops'' = k @ CHR ''='' # v" by blast
    then have "CHR ''='' \<in> set ''oops''" by (metis in_set_conv_decomp)
    then show False by simp
  qed
  then have b: "TrimSpace ''oops '' \<noteq> [] \<and> hd (TrimSpace ''oops '') \<noteq> CHR ''#''
            \<and> \<not> (\<exists>q. TrimSpace ''oops '' = CHR ''['' # q @ '']'')
            \<and> \<not> (\<exists>k v. TrimSpace ''oops '' = k @ CHR ''='' # v \<and> k \<noteq> [] \<and> list_all wordChar k \<and> v \<noteq> [])"
    by (simp add: TrimSpace_ex3)
  from parseTemplate_malformed[OF h1 h2, of "''ba-t''" "[]"] a
  have r1: "parseTemplate (joinLines [''TLP=1''] @ '' [ba-t]'') = Inl (MalformedSectionName ''ba-t'' (length [''TLP=1''] + 1))"
    by blast
  from parseTemplate_malformed[OF h1 h3, of "[]" "''A=1''"] b
  have r2: "parseTemplate (joinLines [''TLP=1''] @ ''oops '' @ newline # ''A=1'')
              = Inl (MalformedLine (length [''TLP=1''] + 1) (TrimSpace ''oops ''))"
    by blast
  from r1 r2 show ?thesis by (simp add: joinLines_def TrimSpace_ex3)
qed

lemma lineStep_setting:
  assumes "newline \<notin> set raw" "TrimSpace raw = k @ CHR ''='' # v"
    and "k \<noteq> []" "list_all wordChar k" "v \<noteq> []"
  shows "lineStep c n a raw = Inr (c, a @ [\<lparr>profile = c, setting = \<lparr>key = k, val = v\<rparr>\<rparr>])"
proof -
  have nv: "newline \<notin> set v" using set_TrimSpace[of raw] assms(1,2) by auto
  have line: "TrimSpace raw \<noteq> []" "hd (TrimSpace raw) \<noteq> CHR ''#''" "\<not> sectionRegex (TrimSpace raw)"
    using assms(2,3,4) by (cases k; auto simp: sectionRegex_def wordChar_def)+
  show ?thesis
    using line keyValRegex_Some[OF assms(3,4,5) nv] assms(2) by (simp add: lineStep_def)
qed

lemma lineStep_section:
  assumes "newline \<notin> set raw" "TrimSpace raw = CHR ''['' # p @ '']''"
  shows "lineStep c n a raw =
           (if p \<noteq> [] \<and> list_all wordChar p then Inr (p, a) else Inl (MalformedSectionName p n))"
proof -
  have nl: "newline \<notin> set (TrimSpace raw)" using set_TrimSpace[of raw] assms(1) by auto
  with assms(2) have "sectionRegex (TrimSpace raw)" by (simp add: sectionRegex_iff)
  with assms(2) show ?thesis by (simp add: lineStep_def validSectionNameRegex_def)
qed

lemma lineStep_neither:
  assumes "newline \<notin> set raw" "TrimSpace raw \<noteq> []" "hd (TrimSpace raw) \<noteq> CHR ''#''"
    and "\<not> (\<exists>q. TrimSpace raw = CHR ''['' # q @ '']'')"
    and "\<not> (\<exists>k v. TrimSpace raw = k @ CHR ''='' # v \<and> k \<noteq> [] \<and> list_all wordChar k \<and> v \<noteq> [])"
  shows "lineStep c n a raw = Inl (MalformedLine n (TrimSpace raw))"
proof -
  have nl: "newline \<notin> set (TrimSpace raw)" using set_TrimSpace[of raw] assms(1) by auto
  with assms(4) have ns: "\<not> sectionRegex (TrimSpace raw)" by (simp add: sectionRegex_iff)
  have "keyValRegex (TrimSpace raw) = None"
  proof (cases "keyValRegex (TrimSpace raw)")
    case None then show ?thesis .
  next
    case (Some kv)
    obtain k v where "kv = (k, v)" by (cases kv)
    with Some keyValRegex_SomeD[of "TrimSpace raw" k v] assms(5) show ?thesis by blast
  qed
  with assms(2,3) ns show ?thesis by (simp add: lineStep_def)
qed

text \<open>
  Claim C7.  A final line without a line feed is processed as any other line.  For every
  text, parsing the text and parsing the text followed by a line feed give the same
  result.  After accepted lines, a last line \<open>raw\<close> without a line feed is treated so: a
  blank line or a comment adds nothing; a setting \<open>k=v\<close> is recorded, tagged with the
  current profile, as the last record; a section header with a valid name is accepted and
  is the current profile from then on; a section header with another name and a line that
  is none of these are errors that carry the number of that line.
\<close>

theorem parseTemplate_final_newline:
  assumes "\<forall>l \<in> set before. newline \<notin> set l \<and> lineOK l"
    and "newline \<notin> set raw"
  shows "parseTemplate (text @ [newline]) = parseTemplate text
       \<and> parseTemplate (joinLines before @ raw @ [newline]) = parseTemplate (joinLines before @ raw)
       \<and> (\<exists>acc. parseTemplate (joinLines before) = Inr acc
            \<and> (TrimSpace raw = [] \<or> hd (TrimSpace raw) = CHR ''#''
                 \<longrightarrow> parseTemplate (joinLines before @ raw) = Inr acc)
            \<and> (TrimSpace raw = k @ CHR ''='' # v \<and> k \<noteq> [] \<and> list_all wordChar k \<and> v \<noteq> []
                 \<longrightarrow> parseTemplate (joinLines before @ raw)
                       = Inr (acc @ [\<lparr>profile = currentProfile before,
                                       setting = \<lparr>key = k, val = v\<rparr>\<rparr>]))
            \<and> (TrimSpace raw = CHR ''['' # p @ '']'' \<and> p \<noteq> [] \<and> list_all wordChar p
                 \<longrightarrow> parseTemplate (joinLines before @ raw) = Inr acc
                     \<and> currentProfile (before @ [raw]) = p)
            \<and> (TrimSpace raw = CHR ''['' # p @ '']'' \<and> \<not> (p \<noteq> [] \<and> list_all wordChar p)
                 \<longrightarrow> parseTemplate (joinLines before @ raw)
                       = Inl (MalformedSectionName p (length before + 1)))
            \<and> (TrimSpace raw \<noteq> [] \<and> hd (TrimSpace raw) \<noteq> CHR ''#''
                 \<and> \<not> (\<exists>q. TrimSpace raw = CHR ''['' # q @ '']'')
                 \<and> \<not> (\<exists>k v. TrimSpace raw = k @ CHR ''='' # v \<and> k \<noteq> []
                            \<and> list_all wordChar k \<and> v \<noteq> [])
                 \<longrightarrow> parseTemplate (joinLines before @ raw)
                       = Inl (MalformedLine (length before + 1) (TrimSpace raw))))"
proof -
  from parseLoop_good_lines[OF assms(1), of defaultProfileName 0 "[]"] obtain acc where
    g: "\<And>more. parseTemplate (joinLines before @ more)
           = parseLoop (currentProfile before) (length before) acc more"
    by (auto simp: parseTemplate_def currentProfile_def)
  have e: "parseTemplate (t @ [newline]) = parseTemplate t" for t
    by (simp add: parseTemplate_def parseLoop_snoc_newline)
  have b: "parseTemplate (joinLines before) = Inr acc"
    using g[of "[]"] by (simp add: parseLoop_Nil)
  have l: "parseTemplate (joinLines before @ raw) =
             (case lineStep (currentProfile before) (length before + 1) acc raw of
                Inl e \<Rightarrow> Inl e | Inr (c', acc') \<Rightarrow> Inr acc')"
    by (simp add: g parseLoop_last[OF assms(2)])
  have 1: "parseTemplate (joinLines before @ raw) = Inr acc"
    if "TrimSpace raw = [] \<or> hd (TrimSpace raw) = CHR ''#''"
    using that by (auto simp: l lineStep_def)
  have 2: "parseTemplate (joinLines before @ raw)
             = Inr (acc @ [\<lparr>profile = currentProfile before, setting = \<lparr>key = k, val = v\<rparr>\<rparr>])"
    if "TrimSpace raw = k @ CHR ''='' # v \<and> k \<noteq> [] \<and> list_all wordChar k \<and> v \<noteq> []"
    using that by (simp add: l lineStep_setting[OF assms(2)])
  have 3: "parseTemplate (joinLines before @ raw) = Inr acc \<and> currentProfile (before @ [raw]) = p"
    if "TrimSpace raw = CHR ''['' # p @ '']'' \<and> p \<noteq> [] \<and> list_all wordChar p"
  proof -
    have nl: "newline \<notin> set (TrimSpace raw)" using set_TrimSpace[of raw] assms(2) by auto
    with that have "sectionRegex (TrimSpace raw)" by (simp add: sectionRegex_iff)
    with that have "currentProfile (before @ [raw]) = p"
      by (simp add: currentProfile_def profileAfter_def)
    with that show ?thesis by (simp add: l lineStep_section[OF assms(2)])
  qed
  have 4: "parseTemplate (joinLines before @ raw) = Inl (MalformedSectionName p (length before + 1))"
    if "TrimSpace raw = CHR ''['' # p @ '']'' \<and> \<not> (p \<noteq> [] \<and> list_all wordChar p)"
    using that lineStep_section[OF assms(2), of p "currentProfile before" "length before + 1" acc]
    by (auto simp: l)
  have 5: "parseTemplate (joinLines before @ raw) = Inl (MalformedLine (length before + 1) (TrimSpace raw))"
    if "TrimSpace raw \<noteq> [] \<and> hd (TrimSpace raw) \<noteq> CHR ''#''
          \<and> \<not> (\<exists>q. TrimSpace raw = CHR ''['' # q @ '']'')
          \<and> \<not> (\<exists>k v. TrimSpace raw = k @ CHR ''='' # v \<and> k \<noteq> [] \<and> list_all wordChar k \<and> v \<noteq> [])"
    using that by (simp add: l lineStep_neither[OF assms(2)])
  from b 1 2 3 4 5 have
    "\<exists>acc. parseTemplate (joinLines before) = Inr acc
            \<and> (TrimSpace raw = [] \<or> hd (TrimSpace raw) = CHR ''#''
                 \<longrightarrow> parseTemplate (joinLines before @ raw) = Inr acc)
            \<and> (TrimSpace raw = k @ CHR ''='' # v \<and> k \<noteq> [] \<and> list_all wordChar k \<and> v \<noteq> []
                 \<longrightarrow> parseTemplate (joinLines before @ raw)
                       = Inr (acc @ [\<lparr>profile = currentProfile before,
                                       setting = \<lparr>key = k, val = v\<rparr>\<rparr>]))
            \<and> (TrimSpace raw = CHR ''['' # p @ '']'' \<and> p \<noteq> [] \<and> list_all wordChar p
                 \<longrightarrow> parseTemplate (joinLines before @ raw) = Inr acc
                     \<and> currentProfile (before @ [raw]) = p)
            \<and> (TrimSpace raw = CHR ''['' # p @ '']'' \<and> \<not> (p \<noteq> [] \<and> list_all wordChar p)
                 \<longrightarrow> parseTemplate (joinLines before @ raw)
                       = Inl (MalformedSectionName p (length before + 1)))
            \<and> (TrimSpace raw \<noteq> [] \<and> hd (TrimSpace raw) \<noteq> CHR ''#''
                 \<and> \<not> (\<exists>q. TrimSpace raw = CHR ''['' # q @ '']'')
                 \<and> \<not> (\<exists>k v. TrimSpace raw = k @ CHR ''='' # v \<and> k \<noteq> []
                            \<and> list_all wordChar k \<and> v \<noteq> [])
                 \<longrightarrow> parseTemplate (joinLines before @ raw)
                       = Inl (MalformedLine (length before + 1) (TrimSpace raw)))"
    by (intro exI[of _ acc]) blast
  moreover have "parseTemplate (joinLines before @ raw @ [newline]) = parseTemplate (joinLines before @ raw)"
    using e[of "joinLines before @ raw"] by simp
  ultimately show ?thesis using e[of "text"] by blast
qed

theorem parseTemplate_final_newline_witness:
  "parseTemplate (''[bat]'' @ [newline] @ ''A=1'')
     = Inr [\<lparr>profile = ''bat'', setting = \<lparr>key = ''A'', val = ''1''\<rparr>\<rparr>]
   \<and> parseTemplate (''[bat]'' @ [newline] @ ''A=1'' @ [newline])
     = Inr [\<lparr>profile = ''bat'', setting = \<lparr>key = ''A'', val = ''1''\<rparr>\<rparr>]
   \<and> parseTemplate (''[bat]'' @ [newline] @ ''oops'') = Inl (MalformedLine 2 ''oops'')"
proof -
  have h1: "\<forall>l \<in> set [''[bat]'']. newline \<notin> set l \<and> lineOK l"
    by (simp add: lineOK_ex2 newline_def)
  have h2: "newline \<notin> set ''A=1''" by (simp add: newline_def)
  have h3: "newline \<notin> set ''oops''" by (simp add: newline_def)
  have t1: "TrimSpace ''A=1'' = ''A'' @ CHR ''='' # ''1''" by code_simp
  have t2: "TrimSpace ''oops'' = ''oops''" by code_simp
  have c: "currentProfile [''[bat]''] = ''bat''" by code_simp
  have b: "parseTemplate (joinLines [''[bat]'']) = Inr []" by code_simp
  have j: "joinLines [''[bat]''] = ''[bat]'' @ [newline]" by (simp add: joinLines_def)
  have k: "''A'' \<noteq> [] \<and> list_all wordChar ''A'' \<and> ''1'' \<noteq> []" by (simp add: wordChar_def)
  have "\<not> (\<exists>k v. ''oops'' = k @ CHR ''='' # v \<and> k \<noteq> [] \<and> list_all wordChar k \<and> v \<noteq> [])"
  proof
    assume "\<exists>k v. ''oops'' = k @ CHR ''='' # v \<and> k \<noteq> [] \<and> list_all wordChar k \<and> v \<noteq> []"
    then obtain k v where "''oops'' = k @ CHR ''='' # v" by blast
    then have "CHR ''='' \<in> set ''oops''" by (metis in_set_conv_decomp)
    then show False by simp
  qed
  then have m: "TrimSpace ''oops'' \<noteq> [] \<and> hd (TrimSpace ''oops'') \<noteq> CHR ''#''
            \<and> \<not> (\<exists>q. TrimSpace ''oops'' = CHR ''['' # q @ '']'')
            \<and> \<not> (\<exists>k v. TrimSpace ''oops'' = k @ CHR ''='' # v \<and> k \<noteq> []
                       \<and> list_all wordChar k \<and> v \<noteq> [])"
    by (simp add: t2)
  from parseTemplate_final_newline[OF h1 h2, of "[]" "''A''" "''1''" "[]"] t1 k b
  have r1: "parseTemplate (joinLines [''[bat]''] @ ''A=1'')
              = Inr ([] @ [\<lparr>profile = currentProfile [''[bat]''], setting = \<lparr>key = ''A'', val = ''1''\<rparr>\<rparr>])"
    and r2: "parseTemplate (joinLines [''[bat]''] @ ''A=1'' @ [newline])
              = parseTemplate (joinLines [''[bat]''] @ ''A=1'')"
    by auto
  from parseTemplate_final_newline[OF h1 h3, of "[]" "[]" "[]" "[]"] m
  have r3: "parseTemplate (joinLines [''[bat]''] @ ''oops'')
              = Inl (MalformedLine (length [''[bat]''] + 1) (TrimSpace ''oops''))"
    by blast
  from r1 r2 r3 show ?thesis by (simp add: j c t2)
qed

text \<open>
  Claim C9 fails on the code.  The line \<open>k=v[x]\<close> is a setting with a key of word
  characters and a non-empty value.  The parser of main.go records it under default.  The
  parser of the other variant takes it for a section header, because its expression for
  section headers is not anchored at the start of the line, and records nothing.
\<close>

theorem parseTemplate_variants_differ:
  "parseTemplate (''k=v[x]'' @ [newline])
     = Inr [\<lparr>profile = ''default'', setting = \<lparr>key = ''k'', val = ''v[x]''\<rparr>\<rparr>]
   \<and> parseTemplate1 (''k=v[x]'' @ [newline]) = []"
  by code_simp


section \<open>The merger leaves the template of its caller alone\<close>

lemma sliceElems_nth:
  "cacheInv h c \<Longrightarrow> i < len c \<Longrightarrow> sliceElems h c ! i = sliceIndex h c i"
  by (simp add: sliceElems_def sliceIndex_def cacheInv_def)

lemma length_sliceElems: "cacheInv h c \<Longrightarrow> length (sliceElems h c) = len c"
  by (simp add: sliceElems_def cacheInv_def)

lemma appendCut_elems:
  assumes "cacheInv h c" "i < len c"
  shows "sliceElems (fst (appendCut h c i)) (snd (appendCut h c i))
           = take i (sliceElems h c) @ drop (i + 1) (sliceElems h c)"
proof -
  define a where "a = arrays h (arr c)"
  define moved where "moved = take (len c - (i + 1)) (drop (off c + (i + 1)) a)"
  from assms have l: "off c + len c \<le> length a" by (simp add: cacheInv_def a_def)
  have lm: "length moved = len c - (i + 1)" using l assms(2) by (simp add: moved_def)
  have li: "length (take i (drop (off c) a)) = i" using l assms(2) by simp
  have d: "drop (off c) (take (off c + i) a) = take i (drop (off c) a)"
    by (simp add: drop_take)
  have "sliceElems (fst (appendCut h c i)) (snd (appendCut h c i))
          = take (i + length moved)
              (drop (off c) (take (off c + i) a @ moved @ drop (off c + i + length moved) a))"
    by (simp add: appendCut_def Let_def sliceElems_def a_def moved_def)
  also have "drop (off c) (take (off c + i) a @ moved @ drop (off c + i + length moved) a)
          = take i (drop (off c) a) @ moved @ drop (off c + i + length moved) a"
    using l assms(2) by (simp add: d)
  also have "take (i + length moved) (take i (drop (off c) a) @ moved @ drop (off c + i + length moved) a)
          = take i (drop (off c) a) @ moved"
    using li by simp
  also have "\<dots> = take i (sliceElems h c) @ drop (i + 1) (sliceElems h c)"
    using assms(2)
    by (simp add: sliceElems_def a_def moved_def drop_take min_def add.commute)
  finally show ?thesis .
qed

lemma appendCut_frame:
  assumes "cacheInv h c" "i < len c"
  shows "cacheInv (fst (appendCut h c i)) (snd (appendCut h c i))"
    and "arr (snd (appendCut h c i)) = arr c"
    and "off (snd (appendCut h c i)) = off c"
    and "b \<noteq> arr c \<Longrightarrow> arrays (fst (appendCut h c i)) b = arrays h b"
    and "nextAddr (fst (appendCut h c i)) = nextAddr h"
  using assms by (simp_all add: appendCut_def Let_def cacheInv_def)

lemma scanProfileS_refines:
  assumes "cacheInv h c"
  shows "case scanProfileS p i h c s m of
           (h', c', s', m') \<Rightarrow>
             (sliceElems h' c', s', m') = scanProfile p i (sliceElems h c) s m
             \<and> cacheInv h' c' \<and> arr c' = arr c
             \<and> (\<forall>b. b \<noteq> arr c \<longrightarrow> arrays h' b = arrays h b)
             \<and> nextAddr h' = nextAddr h"
  using assms
proof (induction p i h c s m rule: scanProfileS.induct)
  case (1 p i h c s m)
  note inv = \<open>cacheInv h c\<close>
  show ?case
  proof (cases "i < len c")
    case False
    then show ?thesis using inv
      by (simp add: scanProfileS.simps[of p i h c] scanProfile.simps[of p i "sliceElems h c"]
            length_sliceElems)
  next
    case True
    note nth = sliceElems_nth[OF inv True]
    have lt: "i < length (sliceElems h c)" using True inv by (simp add: length_sliceElems)
    show ?thesis
    proof (cases "profile (sliceIndex h c i) \<noteq> p")
      case np: True
      have "scanProfileS p i h c s m = scanProfileS p (i + 1) h c s m"
        using True np by (subst scanProfileS.simps) simp
      moreover have "scanProfile p i (sliceElems h c) s m = scanProfile p (i + 1) (sliceElems h c) s m"
        using lt np nth by (subst scanProfile.simps) simp
      ultimately show ?thesis using "1.IH"(1)[OF True np inv] by simp
    next
      case False
      define h1 where "h1 = fst (appendCut h c i)"
      define c1 where "c1 = snd (appendCut h c i)"
      define s1 where "s1 = s @ [setting (sliceIndex h c i)]"
      define m1 where "m1 = m(key (setting (sliceIndex h c i)) \<mapsto> length s1 - 1)"
      have e: "sliceElems h1 c1 = take i (sliceElems h c) @ drop (i + 1) (sliceElems h c)"
        unfolding h1_def c1_def by (rule appendCut_elems[OF inv True])
      note fr = appendCut_frame[OF inv True, folded h1_def c1_def]
      have a: "scanProfileS p i h c s m = scanProfileS p i h1 c1 s1 m1"
        using True False
        by (subst scanProfileS.simps) (simp add: Let_def h1_def c1_def s1_def m1_def)
      have b: "scanProfile p i (sliceElems h c) s m = scanProfile p i (sliceElems h1 c1) s1 m1"
        using lt False nth
        by (subst scanProfile.simps) (simp add: Let_def e s1_def m1_def)
      from "1.IH"(2)[OF True False refl refl, folded s1_def, folded m1_def h1_def c1_def, OF fr(1)]
      have "case scanProfileS p i h1 c1 s1 m1 of
              (h', c', s', m') \<Rightarrow>
                (sliceElems h' c', s', m') = scanProfile p i (sliceElems h1 c1) s1 m1
                \<and> cacheInv h' c' \<and> arr c' = arr c1
                \<and> (\<forall>b. b \<noteq> arr c1 \<longrightarrow> arrays h' b = arrays h1 b)
                \<and> nextAddr h' = nextAddr h1" .
      then show ?thesis unfolding a b using fr(2,4,5)
        by (auto split: prod.splits)
    qed
  qed
qed

lemma applyProfilesS_refines:
  assumes "cacheInv h c"
  shows "case applyProfilesS ps h c s m of
           (h', c', s', m') \<Rightarrow>
             (sliceElems h' c', s', m') = applyProfiles ps (sliceElems h c) s m
             \<and> cacheInv h' c' \<and> arr c' = arr c
             \<and> (\<forall>b. b \<noteq> arr c \<longrightarrow> arrays h' b = arrays h b)
             \<and> nextAddr h' = nextAddr h"
  using assms
proof (induction ps arbitrary: h c s m)
  case Nil
  then show ?case by simp
next
  case (Cons p ps)
  obtain h1 c1 s1 m1 where r: "scanProfileS p 0 h c s m = (h1, c1, s1, m1)"
    by (cases "scanProfileS p 0 h c s m") auto
  from scanProfileS_refines[OF Cons.prems, of p 0 s m] r
  have 1: "(sliceElems h1 c1, s1, m1) = scanProfile p 0 (sliceElems h c) s m"
    and 2: "cacheInv h1 c1" and 3: "arr c1 = arr c"
    and 4: "\<forall>b. b \<noteq> arr c \<longrightarrow> arrays h1 b = arrays h b" and 5: "nextAddr h1 = nextAddr h"
    by auto
  from Cons.IH[OF 2, of s1 m1] 1[symmetric] 3 4 5 r show ?case
    by (auto split: prod.splits)
qed

text \<open>
  Had the scan worked on the slice of the caller, the template would have changed: one scan
  for default on the slice of the scenario leaves other elements in it.
\<close>

lemma scan_in_place_mutates:
  "sliceElems (fst (scanProfileS ''default'' 0 tlpHeap tlpSlice [] Map.empty)) tlpSlice \<noteq> tlpTemplate"
  by (simp add: scanProfileS.simps sliceIndex_def appendCut_def tlpHeap_def tlpSlice_def tlpTemplate_def
        sliceElems_def Let_def)

text \<open>
  Claim C10.  For every store, every template slice that lies inside its array and every
  non-empty selection, \<open>fillConfig\<close> returns and leaves every array that existed before the
  call as it was; the template slice has the same length and the same elements in the same
  order.  Only the array that \<^verbatim>\<open>slices.Clone\<close> allocated is written to.  The lines written
  are those of the value-level model \<open>fillConfig\<close> on the elements of the slice.
\<close>

theorem fillConfig_template_unchanged:
  assumes "selected \<noteq> []"
    and "sliceValid h template"
  shows "\<exists>h' out.
           fillConfigS h template selected = Inr (h', out)
         \<and> fillConfig (sliceElems h template) selected = Inr out
         \<and> (\<forall>b. b < nextAddr h \<longrightarrow> arrays h' b = arrays h b)
         \<and> sliceElems h' template = sliceElems h template
         \<and> length (sliceElems h' template) = len template"
proof -
  define h1 where "h1 = fst (slicesClone h template)"
  define c1 where "c1 = snd (slicesClone h template)"
  from assms(2) have v: "arr template < nextAddr h" "off template + len template \<le> length (arrays h (arr template))"
    by (auto simp: sliceValid_def)
  have e1: "sliceElems h1 c1 = sliceElems h template"
    using v by (simp add: h1_def c1_def slicesClone_def sliceElems_def)
  have i1: "cacheInv h1 c1"
    using v by (simp add: h1_def c1_def slicesClone_def sliceElems_def cacheInv_def)
  have a1: "arr c1 = nextAddr h" by (simp add: c1_def slicesClone_def)
  have f1: "\<forall>b. b < nextAddr h \<longrightarrow> arrays h1 b = arrays h b"
    by (simp add: h1_def slicesClone_def)
  let ?ps = "defaultProfileName # normalizeSelected selected"
  obtain h2 c2 s2 m2 where r: "applyProfilesS ?ps h1 c1 [] Map.empty = (h2, c2, s2, m2)"
    by (cases "applyProfilesS ?ps h1 c1 [] Map.empty") auto
  from applyProfilesS_refines[OF i1, of ?ps "[]" Map.empty] r
  have 1: "applyProfiles ?ps (sliceElems h1 c1) [] Map.empty = (sliceElems h2 c2, s2, m2)"
    and 4: "\<forall>b. b \<noteq> arr c1 \<longrightarrow> arrays h2 b = arrays h1 b"
    by auto
  let ?out = "configHeader # emitSettings m2 0 s2"
  have A: "fillConfigS h template selected = Inr (h2, ?out)"
  proof -
    have sc: "slicesClone h template = (h1, c1)" by (simp add: h1_def c1_def)
    show ?thesis unfolding fillConfigS_def sc using assms(1) r
      by (simp del: applyProfilesS.simps)
  qed
  have B: "fillConfig (sliceElems h template) selected = Inr ?out"
    using assms(1) 1 by (simp add: fillConfig_def e1)
  have C: "\<forall>b. b < nextAddr h \<longrightarrow> arrays h2 b = arrays h b"
    using 4 f1 a1 by auto
  from C v(1) have D: "sliceElems h2 template = sliceElems h template"
    by (simp add: sliceElems_def)
  have E: "length (sliceElems h2 template) = len template"
    unfolding D using v(2) by (simp add: sliceElems_def)
  from A B C D E show ?thesis by blast
qed

theorem fillConfig_template_unchanged_witness:
  "\<exists>h' out. fillConfigS tlpHeap tlpSlice [''bat''] = Inr (h', out)
      \<and> sliceElems h' tlpSlice = tlpTemplate
      \<and> fillConfig tlpTemplate [''bat''] = Inr out"
proof -
  have h1: "[''bat''] \<noteq> ([] :: string list)" by simp
  have h2: "sliceValid tlpHeap tlpSlice"
    by (simp add: sliceValid_def tlpHeap_def tlpSlice_def tlpTemplate_def)
  have e: "sliceElems tlpHeap tlpSlice = tlpTemplate"
    by (simp add: sliceElems_def tlpHeap_def tlpSlice_def tlpTemplate_def)
  from fillConfig_template_unchanged[OF h1 h2] show ?thesis unfolding e by blast
qed


end
